theory Spec2Isabelle
  imports Complex_Main "HOL-Library.Log_Nat"
begin


section \<open>Python values and exceptions\<close>

text \<open>
  The exceptions the script can raise in the parts modelled here. \<open>SystemExit\<close> carries
  the text written to the diagnostic stream before \<open>sys.exit(1)\<close>.
\<close>

datatype py_error =
    IndexError
  | ZeroDivisionError
  | OverflowError
  | KeyError
  | AttributeError
  | ValueError
  | TypeError
  | StopIteration
  | SystemExit string

text \<open>
  Cells of the processed tables: strings, integers, the float \<open>nan\<close> that
  \<open>taxonomy_OTT\<close> stores, and the floats the normalisation produces. A float is kept
  as a rational.
\<close>

datatype pyval = PyStr string | PyInt int | PyFloat rat | PyNaN

text \<open>\<open>xs[i]\<close> for an index produced by \<open>range\<close> (never negative).\<close>

definition getitem :: "'a list \<Rightarrow> nat \<Rightarrow> py_error + 'a" where
  "getitem xs i = (if i < length xs then Inr (xs ! i) else Inl IndexError)"

section \<open>Pruning and normalisation (first half of \<open>process_data\<close>)\<close>

text \<open>The adjustable pruning value of the script, 1.5.\<close>

definition PRUNING_VALUE :: rat where
  "PRUNING_VALUE = 3 / 2"

text \<open>
  Python's \<open>a / b\<close> on two integers gives the double nearest to the exact quotient,
  ties going to the even significand, and raises when that double would be out of range.
  A double is kept as the rational it denotes.

  \<open>round_half_even\<close> is the integer nearest to a rational, the even one of two at a
  tie.
\<close>

definition round_half_even :: "rat \<Rightarrow> int" where
  "round_half_even r =
     (let f = \<lfloor>r\<rfloor>; d = r - of_int f
      in if d < 1 / 2 then f else if 1 / 2 < d then f + 1 else if even f then f else f + 1)"

text \<open>
  For positive \<open>n\<close> and \<open>d\<close>, the exponent \<open>e\<close> with \<open>2^e \<le> n / d < 2^(e + 1)\<close>:
  the difference of the bit lengths, or one less.
\<close>

definition floor_log2 :: "int \<Rightarrow> int \<Rightarrow> int" where
  "floor_log2 n d =
     (let k = bitlen n - bitlen d
      in if 2 powi k \<le> (of_int n / of_int d :: rat) then k else k - 1)"

text \<open>
  The double nearest to \<open>a / b\<close> for \<open>b \<noteq> 0\<close>: a significand of 53 bits at the
  exponent of the quotient, of fewer bits below the exponent -1022 of the smallest normal
  double, so that a quotient too small for a double becomes zero.
\<close>

definition nearest_double :: "int \<Rightarrow> int \<Rightarrow> rat" where
  "nearest_double a b =
     (if a = 0 then 0
      else
        (let e = max (floor_log2 \<bar>a\<bar> \<bar>b\<bar>) (- 1022);
             u = (2 powi (e - 52) :: rat)
         in of_int (sgn a * sgn b) * of_int (round_half_even (of_int \<bar>a\<bar> / of_int \<bar>b\<bar> / u)) * u))"

text \<open>
  \<open>a / b\<close>: ZeroDivisionError for \<open>b = 0\<close>, OverflowError when the nearest double
  would be \<open>2^1024\<close> or more in magnitude.
\<close>

definition true_divide :: "int \<Rightarrow> int \<Rightarrow> py_error + rat" where
  "true_divide a b =
     (if b = 0 then Inl ZeroDivisionError
      else
        (let r = nearest_double a b
         in if 2 powi 1024 \<le> \<bar>r\<bar> then Inl OverflowError else Inr r))"

text \<open>
  One cell of the pruning loop:
  \<open>if controls[i] and data[i][j] / controls[i] <= PRUNING_VALUE: 0 else data[i][j]\<close>.
  The conjunction short-cuts, so the division is only made by a non-zero control; the
  comparison is made on the double the division gives.
\<close>

definition prune_cell :: "rat \<Rightarrow> int \<Rightarrow> int \<Rightarrow> py_error + int" where
  "prune_cell pv c x =
     (if c = 0 then Inr x
      else (case true_divide x c of
              Inl e \<Rightarrow> Inl e
            | Inr q \<Rightarrow> Inr (if q \<le> pv then 0 else x)))"

text \<open>
  The inner loop over \<open>j\<close> for row \<open>i\<close>. \<open>controls[i]\<close> is read once for each
  cell, so a row without cells never reads it.
\<close>

fun prune_row :: "rat \<Rightarrow> int list \<Rightarrow> nat \<Rightarrow> int list \<Rightarrow> py_error + int list" where
  "prune_row pv controls i [] = Inr []"
| "prune_row pv controls i (x # xs) =
     (case getitem controls i of
        Inl e \<Rightarrow> Inl e
      | Inr c \<Rightarrow>
          (case prune_cell pv c x of
             Inl e \<Rightarrow> Inl e
           | Inr y \<Rightarrow>
               (case prune_row pv controls i xs of
                  Inl e \<Rightarrow> Inl e
                | Inr ys \<Rightarrow> Inr (y # ys))))"

text \<open>The outer loop over \<open>i\<close>, started at \<open>i = 0\<close>.\<close>

fun prune_rows :: "rat \<Rightarrow> int list \<Rightarrow> nat \<Rightarrow> int list list \<Rightarrow> py_error + int list list" where
  "prune_rows pv controls i [] = Inr []"
| "prune_rows pv controls i (r # rs) =
     (case prune_row pv controls i r of
        Inl e \<Rightarrow> Inl e
      | Inr r' \<Rightarrow>
          (case prune_rows pv controls (Suc i) rs of
             Inl e \<Rightarrow> Inl e
           | Inr rs' \<Rightarrow> Inr (r' # rs')))"

definition prune_counts :: "rat \<Rightarrow> int list \<Rightarrow> int list list \<Rightarrow> py_error + int list list" where
  "prune_counts pv controls data = prune_rows pv controls 0 data"

text \<open>
  \<open>list(zip(*rows))\<close>: the columns of the rows, cut at the shortest row; no rows give
  no columns.
\<close>

definition zip_star :: "'a list list \<Rightarrow> 'a list list" where
  "zip_star rows =
     (case rows of
        [] \<Rightarrow> []
      | r # rs \<Rightarrow> map (\<lambda>j. map (\<lambda>row. row ! j) rows) [0..<fold min (map length rs) (length r)])"

text \<open>\<open>sums = [sum(i) for i in list(zip(*data_processed))]\<close>\<close>

definition get_sums :: "int list list \<Rightarrow> int list" where
  "get_sums data_processed = map sum_list (zip_star data_processed)"

text \<open>
  \<open>data_processed[i][j] = data_processed[i][j] / sums[j]\<close> for the cells of a row from
  column \<open>j\<close> on: \<open>sums[j]\<close> is read first (IndexError), then the true division of two
  integers is made, which raises ZeroDivisionError on a zero divisor. The proportion is kept
  as the exact quotient, the value the statements about proportions are made for; its
  rounding to a double is left out here. A count that is not negative divided by the sum
  of a column of such counts is at most 1, within the range of a double.
\<close>

fun proportion_row :: "int list \<Rightarrow> nat \<Rightarrow> int list \<Rightarrow> py_error + rat list" where
  "proportion_row sums' j [] = Inr []"
| "proportion_row sums' j (x # xs) =
     (case getitem sums' j of
        Inl e \<Rightarrow> Inl e
      | Inr s \<Rightarrow>
          if s = 0 then Inl ZeroDivisionError
          else (case proportion_row sums' (Suc j) xs of
                  Inl e \<Rightarrow> Inl e
                | Inr ys \<Rightarrow> Inr (of_int x / of_int s # ys)))"

fun get_proportions :: "int list \<Rightarrow> int list list \<Rightarrow> py_error + rat list list" where
  "get_proportions sums' [] = Inr []"
| "get_proportions sums' (r # rs) =
     (case proportion_row sums' 0 r of
        Inl e \<Rightarrow> Inl e
      | Inr r' \<Rightarrow>
          (case get_proportions sums' rs of
             Inl e \<Rightarrow> Inl e
           | Inr rs' \<Rightarrow> Inr (r' # rs')))"

text \<open>
  Lines 221 to 236 of \<open>process_data\<close> together: prune, sum the columns, divide. The
  pruning value is a parameter here; the script runs it at \<open>PRUNING_VALUE\<close>.
\<close>

definition prune_and_normalize :: "rat \<Rightarrow> int list \<Rightarrow> int list list \<Rightarrow> py_error + rat list list" where
  "prune_and_normalize pv controls data =
     (case prune_counts pv controls data of
        Inl e \<Rightarrow> Inl e
      | Inr data_processed \<Rightarrow> get_proportions (get_sums data_processed) data_processed)"

section \<open>Strings\<close>

text \<open>\<open>str(n)\<close> for the waiting times and identifiers the script prints.\<close>

fun str_nat :: "nat \<Rightarrow> string" where
  "str_nat n =
     (if n < 10 then [''0123456789'' ! n]
      else str_nat (n div 10) @ [''0123456789'' ! (n mod 10)])"

declare str_nat.simps [simp del]

definition str_int :: "int \<Rightarrow> string" where
  "str_int i = (if i < 0 then CHR ''-'' # str_nat (nat (- i)) else str_nat (nat i))"

text \<open>
  \<open>s.split(sep)\<close> with a one-character separator: the pieces between the separators,
  empty pieces kept, at least one piece.
\<close>

fun split_on :: "char \<Rightarrow> string \<Rightarrow> string list" where
  "split_on sep [] = [[]]"
| "split_on sep (c # cs) =
     (if c = sep then [] # split_on sep cs
      else (case split_on sep cs of
              [] \<Rightarrow> [[c]]
            | p # ps \<Rightarrow> (c # p) # ps))"

text \<open>
  \<open>s.rsplit(' ', 1)\<close>: cut at the last space, or the whole string as the only piece
  when it has none.
\<close>

definition rsplit1 :: "string \<Rightarrow> string list" where
  "rsplit1 s =
     (if CHR '' '' \<in> set s
      then [rev (tl (dropWhile (\<lambda>c. c \<noteq> CHR '' '') (rev s))),
            rev (takeWhile (\<lambda>c. c \<noteq> CHR '' '') (rev s))]
      else [s])"

text \<open>\<open>' '.join(xs)\<close>\<close>

fun join_sp :: "string list \<Rightarrow> string" where
  "join_sp [] = []"
| "join_sp [x] = x"
| "join_sp (x # y # ys) = x @ CHR '' '' # join_sp (y # ys)"

text \<open>
  \<open>s.split()\<close>: the maximal runs of characters that are not whitespace. The whitespace
  of the ASCII range is the space, the controls 9 to 13 and 28 to 31.
\<close>

definition is_space :: "char \<Rightarrow> bool" where
  "is_space c =
     (let n = (of_char c :: nat) in n = 32 \<or> (9 \<le> n \<and> n \<le> 13) \<or> (28 \<le> n \<and> n \<le> 31))"

fun split_ws :: "string \<Rightarrow> string list" where
  "split_ws [] = []"
| "split_ws (c # cs) =
     (if is_space c then split_ws cs
      else (case cs of
              [] \<Rightarrow> [[c]]
            | d # ds \<Rightarrow>
                if is_space d then [c] # split_ws cs
                else (case split_ws cs of
                        [] \<Rightarrow> [[c]]
                      | p # ps \<Rightarrow> (c # p) # ps)))"

text \<open>\<open>s.lower()\<close> on the letters of the ASCII range.\<close>

definition lower_char :: "char \<Rightarrow> char" where
  "lower_char c =
     (case map_of (zip ''ABCDEFGHIJKLMNOPQRSTUVWXYZ'' ''abcdefghijklmnopqrstuvwxyz'') c of
        None \<Rightarrow> c
      | Some l \<Rightarrow> l)"

definition lower :: "string \<Rightarrow> string" where
  "lower s = map lower_char s"

section \<open>The Open Tree of Life service\<close>

text \<open>
  A taxon object as the service returns it, in a name match and in a lineage: the fields
  the script reads. The bodies are modelled at the schema of the service: a taxon has
  all five fields, names and ranks are strings, identifiers are integers.
\<close>

record taxon =
  t_rank :: string
  t_name :: string
  t_unique_name :: string
  t_ott_id :: int
  t_tax_sources :: "string list"

text \<open>
  What \<open>res.json()\<close> gives: the answer of \<open>tnrs/match_names\<close> (for each name sent, the
  taxa of its matches, in order), the answer of \<open>taxonomy/taxon_info\<close> (the taxon and
  its lineage), an error object with a \<open>message\<close>, or an object with none of these
  keys.
\<close>

datatype body =
    Results "taxon list list"
  | Taxon_info taxon "taxon list"
  | Message string
  | Other_body

record response =
  status_code :: int
  json :: body

text \<open>The two requests the script posts, with their JSON arguments.\<close>

datatype request =
    Match_names "string list" bool
  | Taxon_info_ott_id int bool
  | Taxon_info_source_id string bool

text \<open>
  \<open>requests.post\<close> returns a response or raises one of the two exceptions the script
  catches.
\<close>

datatype outcome = Raises_SSLError | Raises_ConnectionError | Returns response

text \<open>
  The environment of a run: what the \<open>k\<close>-th call of \<open>requests.post\<close> does with
  its request, and what \<open>time.ctime()\<close> prints after that call.
\<close>

record env =
  post :: "nat \<Rightarrow> request \<Rightarrow> outcome"
  ctime :: "nat \<Rightarrow> string"

text \<open>
  The state a run changes: the number of calls of \<open>requests.post\<close> made, what was
  written to \<open>sys.stderr\<close>, the warnings given, and the \<open>time.sleep\<close> calls made.
\<close>

record world =
  calls :: nat
  stderr :: "string list"
  warned :: "string list"
  slept :: "nat list"

text \<open>
  The retry loop of \<open>otl_tnrs\<close>. It ends only on a response with status 200; a loop
  that never ends is the value \<open>None\<close>.
\<close>

partial_function (option) otl_tnrs ::
  "env \<Rightarrow> string \<Rightarrow> bool \<Rightarrow> nat \<Rightarrow> world \<Rightarrow> (response \<times> world) option" where
  "otl_tnrs env query do_approximate wait_time w =
     (case post env (calls w) (Match_names [query, query] do_approximate) of
        Returns res \<Rightarrow>
          if status_code res = 200 then Some (res, w\<lparr>calls := Suc (calls w)\<rparr>)
          else otl_tnrs env query do_approximate wait_time
                 (w\<lparr>calls := Suc (calls w),
                    stderr := stderr w @
                      [ctime env (calls w) @ '': error with Open Tree of Life response, retrying in ''
                         @ str_nat wait_time @ '' seconds''],
                    slept := slept w @ [wait_time]\<rparr>)
      | Raises_SSLError \<Rightarrow>
          otl_tnrs env query do_approximate wait_time
            (w\<lparr>calls := Suc (calls w),
               stderr := stderr w @
                 [ctime env (calls w) @ '': error connecting to Open Tree of Life, retrying in ''
                    @ str_nat wait_time @ '' seconds''],
               slept := slept w @ [wait_time]\<rparr>)
      | Raises_ConnectionError \<Rightarrow>
          otl_tnrs env query do_approximate wait_time
            (w\<lparr>calls := Suc (calls w),
               stderr := stderr w @
                 [ctime env (calls w) @ '': error connecting to Open Tree of Life, retrying in ''
                    @ str_nat wait_time @ '' seconds''],
               slept := slept w @ [wait_time]\<rparr>))"

text \<open>
  The retry loop of \<open>otl_taxon\<close>. Status 200 returns the response; status 400 writes
  the \<open>message\<close> of the body and \<open>skipping\<close> to the diagnostic stream and returns
  Python's \<open>None\<close> (here \<open>Inr None\<close>); a body without a \<open>message\<close> raises KeyError;
  everything else is tried again after the wait.
\<close>

partial_function (option) otl_taxon ::
  "env \<Rightarrow> int \<Rightarrow> nat \<Rightarrow> bool \<Rightarrow> world \<Rightarrow> ((py_error + response option) \<times> world) option" where
  "otl_taxon env query wait_time ncbi w =
     (case post env (calls w)
             (if ncbi then Taxon_info_source_id (''ncbi:'' @ str_int query) True
              else Taxon_info_ott_id query True) of
        Returns res \<Rightarrow>
          if status_code res = 200 then Some (Inr (Some res), w\<lparr>calls := Suc (calls w)\<rparr>)
          else if status_code res = 400 then
            (case json res of
               Message m \<Rightarrow>
                 Some (Inr None,
                   w\<lparr>calls := Suc (calls w), stderr := stderr w @ [m, ''skipping'']\<rparr>)
             | Results rs \<Rightarrow> Some (Inl KeyError, w\<lparr>calls := Suc (calls w)\<rparr>)
             | Taxon_info t l \<Rightarrow> Some (Inl KeyError, w\<lparr>calls := Suc (calls w)\<rparr>)
             | Other_body \<Rightarrow> Some (Inl KeyError, w\<lparr>calls := Suc (calls w)\<rparr>))
          else otl_taxon env query wait_time ncbi
                 (w\<lparr>calls := Suc (calls w),
                    stderr := stderr w @
                      [ctime env (calls w) @ '': error contacting Open Tree of Life, retrying in ''
                         @ str_nat wait_time @ '' seconds''],
                    slept := slept w @ [wait_time]\<rparr>)
      | Raises_SSLError \<Rightarrow>
          otl_taxon env query wait_time ncbi
            (w\<lparr>calls := Suc (calls w),
               stderr := stderr w @
                 [ctime env (calls w) @ '': error connecting to Open Tree of Life, retrying in ''
                    @ str_nat wait_time @ '' seconds''],
               slept := slept w @ [wait_time]\<rparr>)
      | Raises_ConnectionError \<Rightarrow>
          otl_taxon env query wait_time ncbi
            (w\<lparr>calls := Suc (calls w),
               stderr := stderr w @
                 [ctime env (calls w) @ '': error connecting to Open Tree of Life, retrying in ''
                    @ str_nat wait_time @ '' seconds''],
               slept := slept w @ [wait_time]\<rparr>))"

declare otl_tnrs.simps [code]
declare otl_taxon.simps [code]

section \<open>The lineage extractor, \<open>taxonomy_OTT\<close>\<close>

text \<open>
  \<open>list2dict\<close>: each entry is split at the colons, piece 0 is the key and piece 1 the
  value; an entry without a colon has no piece 1 (IndexError); a later entry with the
  same key replaces an earlier one.
\<close>

fun list2dict :: "string list \<Rightarrow> py_error + (string \<rightharpoonup> string)" where
  "list2dict [] = Inr Map.empty"
| "list2dict (x # xs) =
     (case split_on CHR '':'' x of
        k # v # _ \<Rightarrow>
          (case list2dict xs of
             Inl e \<Rightarrow> Inl e
           | Inr d \<Rightarrow> Inr (case d k of None \<Rightarrow> d(k \<mapsto> v) | Some later \<Rightarrow> d))
      | _ \<Rightarrow> Inl IndexError)"

text \<open>
  \<open>try: out_dict.update({key: list2dict(sources)['ncbi']}) except KeyError: pass\<close>.
  Only a missing \<open>ncbi\<close> entry is passed over; the IndexError of \<open>list2dict\<close> is
  raised.
\<close>

definition update_ncbi ::
  "string \<Rightarrow> string list \<Rightarrow> (string \<rightharpoonup> pyval) \<Rightarrow> py_error + (string \<rightharpoonup> pyval)" where
  "update_ncbi key sources out_dict =
     (case list2dict sources of
        Inl e \<Rightarrow> Inl e
      | Inr d \<Rightarrow>
          (case d ''ncbi'' of
             None \<Rightarrow> Inr out_dict
           | Some v \<Rightarrow> Inr (out_dict(key \<mapsto> PyStr v))))"

text \<open>
  The dictionary comprehension over the lineage:
  \<open>{'tax_' + higher['rank']: higher['name'] for higher in lineage}\<close>.
\<close>

definition lineage_dict :: "taxon list \<Rightarrow> (string \<rightharpoonup> pyval)" where
  "lineage_dict lineage =
     fold (\<lambda>higher d. d(''tax_'' @ t_rank higher \<mapsto> PyStr (t_name higher))) lineage Map.empty"

text \<open>\<open>out_dict['rank'] in ranks\<close>; a missing key raises KeyError.\<close>

definition rank_in :: "(string \<rightharpoonup> pyval) \<Rightarrow> string list \<Rightarrow> py_error + bool" where
  "rank_in out_dict ranks =
     (case out_dict ''rank'' of
        None \<Rightarrow> Inl KeyError
      | Some (PyStr r) \<Rightarrow> Inr (r \<in> set ranks)
      | Some other \<Rightarrow> Inr False)"

text \<open>
  Lines 116 to 131: the genus of a species or subspecies. With no genus in the lineage
  the list has no element 0 and the handler of IndexError runs; the \<open>split()[0]\<close>
  inside the handler raises IndexError itself when the unique name has no token.
\<close>

definition add_genus ::
  "taxon \<Rightarrow> taxon list \<Rightarrow> (string \<rightharpoonup> pyval) \<Rightarrow> py_error + (string \<rightharpoonup> pyval)" where
  "add_genus t lineage out_dict =
     (if t_rank t \<in> set [''species'', ''subspecies''] then
        (case filter (\<lambda>tax. t_rank tax = ''genus'') lineage of
           [] \<Rightarrow>
             (let d1 = out_dict(''tax_cg_ott_id'' \<mapsto> PyNaN) in
              case rank_in d1 [''species'', ''subspecies''] of
                Inl e \<Rightarrow> Inl e
              | Inr False \<Rightarrow> Inr d1
              | Inr True \<Rightarrow>
                  (case split_ws (t_unique_name t) of
                     [] \<Rightarrow> Inl IndexError
                   | tok # _ \<Rightarrow> Inr (d1(''cg'' \<mapsto> PyStr tok))))
         | genus_tax # _ \<Rightarrow>
             (let d1 = out_dict(''tax_cg_ott_id'' \<mapsto> PyInt (t_ott_id genus_tax)) in
              case d1 ''tax_genus'' of
                None \<Rightarrow> Inl KeyError
              | Some g \<Rightarrow>
                  update_ncbi ''tax_cg_ncbi_id'' (t_tax_sources genus_tax)
                    ((d1(''cg'' \<mapsto> g))(''tax_genus'' := None))))
      else Inr out_dict)"

text \<open>
  Lines 133 to 138: the species of the lineage, inside a bare \<open>except\<close>, so that a
  lineage without a species changes nothing.
\<close>

definition add_species :: "taxon list \<Rightarrow> (string \<rightharpoonup> pyval) \<Rightarrow> (string \<rightharpoonup> pyval)" where
  "add_species lineage out_dict =
     (case filter (\<lambda>tax. t_rank tax = ''species'') lineage of
        [] \<Rightarrow> out_dict
      | species_tax # _ \<Rightarrow> out_dict(''tax_cs_ott_id'' \<mapsto> PyInt (t_ott_id species_tax)))"

text \<open>
  The dictionary \<open>taxonomy_OTT\<close> builds from the body of the response, lines 98 to 148.
  A body that is not a taxon with its lineage has no \<open>lineage\<close> key (KeyError).
\<close>

definition taxonomy_dict :: "int \<Rightarrow> body \<Rightarrow> py_error + (string \<rightharpoonup> pyval)" where
  "taxonomy_dict ott_id b =
     (case b of
        Taxon_info t lineage \<Rightarrow>
          (let d1 = lineage_dict lineage;
               d2 = d1(''tax_higher_source'' \<mapsto> PyStr ''OTT'');
               d3 = d2(''rank'' \<mapsto> PyStr (t_rank t));
               d4 = d3(''tax_no rank'' := None);
               d5 = d4(''tax_ott_id'' \<mapsto> PyInt ott_id);
               d6 = d5(''tax_ott_accepted_name'' \<mapsto> PyStr (t_name t))
           in case update_ncbi ''tax_ncbi_id'' (t_tax_sources t) d6 of
                Inl e \<Rightarrow> Inl e
              | Inr d7 \<Rightarrow>
                  (case add_genus t lineage d7 of
                     Inl e \<Rightarrow> Inl e
                   | Inr d8 \<Rightarrow>
                       (let d9 = add_species lineage d8;
                            d10 = d9(''tax_species'' := None)
                        in case rank_in d10 [''species'', ''subspecies'', ''genus'', ''subgenus''] of
                             Inl e \<Rightarrow> Inl e
                           | Inr True \<Rightarrow> Inr d10
                           | Inr False \<Rightarrow> Inr (d10(''cg'' \<mapsto> PyStr '''')))))
      | Results rs \<Rightarrow> Inl KeyError
      | Message m \<Rightarrow> Inl KeyError
      | Other_body \<Rightarrow> Inl KeyError)"

text \<open>
  \<open>taxonomy_OTT\<close>: the detail lookup with a wait of 3600 seconds, then the dictionary.
  When \<open>otl_taxon\<close> returned \<open>None\<close>, \<open>res.json()\<close> raises AttributeError.
\<close>

definition taxonomy_OTT ::
  "env \<Rightarrow> int \<Rightarrow> world \<Rightarrow> ((py_error + (string \<rightharpoonup> pyval)) \<times> world) option" where
  "taxonomy_OTT env ott_id w =
     (case otl_taxon env ott_id 3600 False w of
        None \<Rightarrow> None
      | Some (Inl e, w') \<Rightarrow> Some (Inl e, w')
      | Some (Inr None, w') \<Rightarrow> Some (Inl AttributeError, w')
      | Some (Inr (Some res), w') \<Rightarrow> Some (taxonomy_dict ott_id (json res), w'))"

section \<open>The name check, \<open>otl_checkname\<close>\<close>

text \<open>
  The dictionary \<open>otl_checkname\<close> returns for an accepted match. \<open>taxon_id\<close> is the
  key \<open>id\<close>; \<open>ncbi_id\<close> is present only when the sources of a species name one.
\<close>

record outdict =
  current_name :: string
  taxon_id :: int
  name_source :: string
  higher_taxonomy :: "string \<rightharpoonup> pyval"
  level :: string
  ncbi_id :: "string option"

text \<open>
  The three kinds of value \<open>otl_checkname\<close> returns: \<open>None\<close>, the empty dictionary
  and a filled dictionary. Only the last is true in a condition.
\<close>

datatype checked = PyNone | EmptyDict | OutDict outdict

fun truthy :: "checked \<Rightarrow> bool" where
  "truthy PyNone = False"
| "truthy EmptyDict = False"
| "truthy (OutDict d) = True"

text \<open>
  \<open>try: outdict['ncbi_id'] = list2dict(sources)['ncbi'] except: pass\<close>, which passes
  over every exception.
\<close>

definition species_ncbi_id :: "string list \<Rightarrow> string option" where
  "species_ncbi_id sources =
     (case list2dict sources of
        Inl e \<Rightarrow> None
      | Inr d \<Rightarrow> d ''ncbi'')"

definition otl_checkname ::
  "env \<Rightarrow> string \<Rightarrow> world \<Rightarrow> ((py_error + checked) \<times> world) option" where
  "otl_checkname env query w =
     (case otl_tnrs env query False 600 w of
        None \<Rightarrow> None
      | Some (res, w1) \<Rightarrow>
          (case json res of
             Results results \<Rightarrow>
               (case results of
                  [] \<Rightarrow> Some (Inr PyNone, w1)
                | matches # _ \<Rightarrow>
                    (case matches of
                       [] \<Rightarrow> Some (Inr EmptyDict, w1)
                     | result # _ \<Rightarrow>
                         (case taxonomy_OTT env (t_ott_id result) w1 of
                            None \<Rightarrow> None
                          | Some (Inl e, w2) \<Rightarrow> Some (Inl e, w2)
                          | Some (Inr ht, w2) \<Rightarrow>
                              if t_rank result = ''species'' then
                                Some (Inr (OutDict
                                  \<lparr>current_name = t_name result, taxon_id = t_ott_id result,
                                   name_source = ''OTT'', higher_taxonomy = ht,
                                   level = ''species'',
                                   ncbi_id = species_ncbi_id (t_tax_sources result)\<rparr>), w2)
                              else if t_rank result = ''genus'' then
                                Some (Inr (OutDict
                                  \<lparr>current_name = t_name result, taxon_id = t_ott_id result,
                                   name_source = ''OTT'', higher_taxonomy = ht,
                                   level = ''genus'', ncbi_id = None\<rparr>), w2)
                              else
                                Some (Inr PyNone,
                                  w2\<lparr>warned := warned w2 @
                                    [query @ '': found in ott, but not as genus or species'']\<rparr>))))
           | Taxon_info t l \<Rightarrow> Some (Inl KeyError, w1)
           | Message m \<Rightarrow> Some (Inl KeyError, w1)
           | Other_body \<Rightarrow> Some (Inl KeyError, w1)))"

section \<open>Name resolution and the pipeline, \<open>process_data\<close>\<close>

lemma rsplit1_shorter:
  assumes "CHR '' '' \<in> set s" and "rsplit1 s @ rest = q # rest'"
  shows "length q < length s"
proof -
  have "dropWhile (\<lambda>c. c \<noteq> CHR '' '') (rev s) \<noteq> []"
    using assms(1) by (simp add: dropWhile_eq_Nil_conv)
  then have "length (tl (dropWhile (\<lambda>c. c \<noteq> CHR '' '') (rev s))) <
             length (dropWhile (\<lambda>c. c \<noteq> CHR '' '') (rev s))"
    by (cases "dropWhile (\<lambda>c. c \<noteq> CHR '' '') (rev s)") simp_all
  also have "\<dots> \<le> length (rev s)"
    by (rule length_dropWhile_le)
  finally show ?thesis using assms by (auto simp: rsplit1_def)
qed

text \<open>
  The loop of lines 245 to 247,
  \<open>while not taxa and ' ' in name[0]: name = name[0].rsplit(' ', 1) + name[1:];
  taxa = otl_checkname(name[0])\<close>,
  from the values of \<open>taxa\<close> and \<open>name\<close> at its head. It returns the two values at its
  exit. A lookup that never returns makes the loop never return (\<open>None\<close>); an exception
  of the lookup leaves the loop.
\<close>

function shorten_name ::
  "env \<Rightarrow> checked \<Rightarrow> string list \<Rightarrow> world \<Rightarrow> ((py_error + checked \<times> string list) \<times> world) option" where
  "shorten_name env taxa name w =
     (if truthy taxa then Some (Inr (taxa, name), w)
      else (case name of
              [] \<Rightarrow> Some (Inl IndexError, w)
            | name0 # rest \<Rightarrow>
                if CHR '' '' \<in> set name0 then
                  (case rsplit1 name0 @ rest of
                     [] \<Rightarrow> Some (Inl IndexError, w)
                   | q # rest' \<Rightarrow>
                       (case otl_checkname env q w of
                          None \<Rightarrow> None
                        | Some (Inl e, w') \<Rightarrow> Some (Inl e, w')
                        | Some (Inr taxa', w') \<Rightarrow> shorten_name env taxa' (q # rest') w'))
                else Some (Inr (taxa, name), w)))"
  by pat_completeness auto
termination
  by (relation "measure (\<lambda>(env, taxa, name, w). length (hd name))")
     (auto dest: rsplit1_shorter)

declare shorten_name.simps [simp del]

text \<open>
  Lines 249 to 262: the row of one OTU, from the values the loop left. \<open>sp\<close> is the
  label as \<open>process_data\<close> received it.
\<close>

definition species_row :: "checked \<Rightarrow> string list \<Rightarrow> string \<Rightarrow> pyval list" where
  "species_row taxa name sp =
     (case taxa of
        OutDict d \<Rightarrow>
          map (\<lambda>key. case higher_taxonomy d key of None \<Rightarrow> PyStr ''-'' | Some v \<Rightarrow> v)
            [''tax_domain'', ''tax_kingdom'', ''tax_phylum'', ''tax_class'', ''tax_order'',
             ''tax_family'']
          @ [PyStr (if length name > 1 then current_name d @ '' '' @ join_sp (tl name)
                    else current_name d)]
      | PyNone \<Rightarrow>
          [PyStr ''-'', PyStr ''-'', PyStr ''-'', PyStr ''-'', PyStr ''-'', PyStr ''-'', PyStr sp]
      | EmptyDict \<Rightarrow>
          [PyStr ''-'', PyStr ''-'', PyStr ''-'', PyStr ''-'', PyStr ''-'', PyStr ''-'', PyStr sp])"

text \<open>The body of the loop over the species, lines 240 to 262, for one label.\<close>

definition resolve :: "env \<Rightarrow> string \<Rightarrow> world \<Rightarrow> ((py_error + pyval list) \<times> world) option" where
  "resolve env sp w =
     (case otl_checkname env sp w of
        None \<Rightarrow> None
      | Some (Inl e, w1) \<Rightarrow> Some (Inl e, w1)
      | Some (Inr taxa, w1) \<Rightarrow>
          (case shorten_name env taxa [sp] w1 of
             None \<Rightarrow> None
           | Some (Inl e, w2) \<Rightarrow> Some (Inl e, w2)
           | Some (Inr (taxa', name), w2) \<Rightarrow> Some (Inr (species_row taxa' name sp), w2)))"

text \<open>\<open>for sp in species\<close>: the rows in the order of the labels.\<close>

fun get_taxonomy ::
  "env \<Rightarrow> string list \<Rightarrow> world \<Rightarrow> ((py_error + pyval list list) \<times> world) option" where
  "get_taxonomy env [] w = Some (Inr [], w)"
| "get_taxonomy env (sp # species) w =
     (case resolve env sp w of
        None \<Rightarrow> None
      | Some (Inl e, w1) \<Rightarrow> Some (Inl e, w1)
      | Some (Inr row, w1) \<Rightarrow>
          (case get_taxonomy env species w1 of
             None \<Rightarrow> None
           | Some (Inl e, w2) \<Rightarrow> Some (Inl e, w2)
           | Some (Inr rows, w2) \<Rightarrow> Some (Inr (row # rows), w2)))"

text \<open>
  \<open>process_data\<close>: the counts are pruned and normalised first, with the pruning value
  of the script; an exception there ends the run before any lookup is made.
\<close>

definition process_data ::
  "env \<Rightarrow> string list \<Rightarrow> int list \<Rightarrow> int list list \<Rightarrow> world \<Rightarrow>
   ((py_error + pyval list list \<times> rat list list) \<times> world) option" where
  "process_data env species controls data w =
     (case prune_and_normalize PRUNING_VALUE controls data of
        Inl e \<Rightarrow> Some (Inl e, w)
      | Inr data_processed \<Rightarrow>
          (case get_taxonomy env species w of
             None \<Rightarrow> None
           | Some (Inl e, w') \<Rightarrow> Some (Inl e, w')
           | Some (Inr species_processed, w') \<Rightarrow>
               Some (Inr (species_processed, data_processed), w')))"

section \<open>Reading and writing the tables\<close>

text \<open>The results of a list of computations in order, or the first exception.\<close>

fun collect :: "('e + 'a) list \<Rightarrow> 'e + 'a list" where
  "collect [] = Inr []"
| "collect (x # xs) =
     (case x of
        Inl e \<Rightarrow> Inl e
      | Inr v \<Rightarrow> (case collect xs of Inl e \<Rightarrow> Inl e | Inr vs \<Rightarrow> Inr (v # vs)))"

text \<open>\<open>xs.index(x)\<close>: the first position of \<open>x\<close>, if it has one.\<close>

fun index_of :: "'a \<Rightarrow> 'a list \<Rightarrow> nat option" where
  "index_of x [] = None"
| "index_of x (y # ys) =
     (if x = y then Some 0 else (case index_of x ys of None \<Rightarrow> None | Some i \<Rightarrow> Some (Suc i)))"

text \<open>
  \<open>[int(row[i]) for i in range(1, len(row)) if i != control_col]\<close>, with Python's
  \<open>int\<close> on strings as the parameter \<open>int_of\<close>.
\<close>

definition data_row :: "(string \<Rightarrow> py_error + int) \<Rightarrow> nat \<Rightarrow> string list \<Rightarrow> py_error + int list" where
  "data_row int_of control_col row =
     collect (map (\<lambda>i. int_of (row ! i)) (filter (\<lambda>i. i \<noteq> control_col) [1..<length row]))"

text \<open>
  \<open>read_data\<close>. The file system is a map from file names to the rows the CSV reader
  yields; a missing file and a missing column end the run with \<open>sys.exit(1)\<close> after a
  message.
\<close>

definition read_data ::
  "(string \<Rightarrow> py_error + int) \<Rightarrow> (string \<rightharpoonup> string list list) \<Rightarrow> string \<Rightarrow>
   py_error + string list \<times> string list \<times> int list \<times> int list list" where
  "read_data int_of fs file =
     (case fs file of
        None \<Rightarrow> Inl (SystemExit (''file '' @ [CHR 0x27] @ file @ [CHR 0x27] @ '' not found'' @ [CHR 0x0A]))
      | Some [] \<Rightarrow> Inl StopIteration
      | Some (header # csvrows) \<Rightarrow>
          (case getitem (map lower header) 0 of
             Inl e \<Rightarrow> Inl e
           | Inr h0 \<Rightarrow>
               if h0 \<noteq> ''otu'' then Inl (SystemExit (''no OTU column found'' @ [CHR 0x0A]))
               else
                 (case getitem (zip_star csvrows) 0 of
                    Inl e \<Rightarrow> Inl e
                  | Inr col0 \<Rightarrow>
                      (case index_of ''control'' (map lower header) of
                         None \<Rightarrow> Inl (SystemExit (''no control column found'' @ [CHR 0x0A]))
                       | Some control_col \<Rightarrow>
                           (case getitem (zip_star csvrows) control_col of
                              Inl e \<Rightarrow> Inl e
                            | Inr ccol \<Rightarrow>
                                (case collect (map int_of ccol) of
                                   Inl e \<Rightarrow> Inl e
                                 | Inr controls \<Rightarrow>
                                     (case collect (map (data_row int_of control_col) csvrows) of
                                        Inl e \<Rightarrow> Inl e
                                      | Inr data \<Rightarrow>
                                          Inr (header, map lower col0, controls, data))))))))"

text \<open>
  The order of the rows in \<open>combined.sort()\<close>. Lists are compared at the first position
  where they differ, by \<open>==\<close>, and by their lengths when there is none. Strings are compared by
  their characters' codes, numbers by value; a string and a number have no order
  (TypeError); \<open>nan\<close> is below nothing and nothing is below it.
\<close>

fun str_lt :: "string \<Rightarrow> string \<Rightarrow> bool" where
  "str_lt [] [] = False"
| "str_lt [] (d # ds) = True"
| "str_lt (c # cs) [] = False"
| "str_lt (c # cs) (d # ds) = (if c = d then str_lt cs ds else (of_char c :: nat) < of_char d)"

fun pyval_eq :: "pyval \<Rightarrow> pyval \<Rightarrow> bool" where
  "pyval_eq (PyStr s) (PyStr t) = (s = t)"
| "pyval_eq (PyInt i) (PyInt j) = (i = j)"
| "pyval_eq (PyInt i) (PyFloat y) = (of_int i = y)"
| "pyval_eq (PyFloat x) (PyInt j) = (x = of_int j)"
| "pyval_eq (PyFloat x) (PyFloat y) = (x = y)"
| "pyval_eq PyNaN PyNaN = True"
| "pyval_eq a b = False"

fun pyval_lt :: "pyval \<Rightarrow> pyval \<Rightarrow> py_error + bool" where
  "pyval_lt (PyStr s) (PyStr t) = Inr (str_lt s t)"
| "pyval_lt (PyStr s) b = Inl TypeError"
| "pyval_lt a (PyStr t) = Inl TypeError"
| "pyval_lt (PyInt i) (PyInt j) = Inr (i < j)"
| "pyval_lt (PyInt i) (PyFloat y) = Inr (of_int i < y)"
| "pyval_lt (PyFloat x) (PyInt j) = Inr (x < of_int j)"
| "pyval_lt (PyFloat x) (PyFloat y) = Inr (x < y)"
| "pyval_lt a b = Inr False"

fun row_lt :: "pyval list \<Rightarrow> pyval list \<Rightarrow> py_error + bool" where
  "row_lt [] [] = Inr False"
| "row_lt [] (y # ys) = Inr True"
| "row_lt (x # xs) [] = Inr False"
| "row_lt (x # xs) (y # ys) = (if pyval_eq x y then row_lt xs ys else pyval_lt x y)"

text \<open>
  \<open>combined.sort()\<close> as a stable insertion sort that only asks \<open>x < r\<close>. Python does
  not fix which pairs its sort compares, so on rows that cannot be compared the point of
  the TypeError is this model's; on rows that can be compared every stable sort gives
  the same list.
\<close>

fun insert_row :: "pyval list \<Rightarrow> pyval list list \<Rightarrow> py_error + pyval list list" where
  "insert_row r [] = Inr [r]"
| "insert_row r (x # xs) =
     (case row_lt x r of
        Inl e \<Rightarrow> Inl e
      | Inr True \<Rightarrow> (case insert_row r xs of Inl e \<Rightarrow> Inl e | Inr ys \<Rightarrow> Inr (x # ys))
      | Inr False \<Rightarrow> Inr (r # x # xs))"

fun sort_rows :: "pyval list list \<Rightarrow> py_error + pyval list list" where
  "sort_rows [] = Inr []"
| "sort_rows (r # rs) =
     (case sort_rows rs of
        Inl e \<Rightarrow> Inl e
      | Inr sorted_rs \<Rightarrow> insert_row r sorted_rs)"

text \<open>
  \<open>combined = [species[i] + data[i] for i in range(len(species))]\<close>: the row of
  \<open>species\<close> followed by the proportions of the same index.
\<close>

definition combine :: "pyval list list \<Rightarrow> rat list list \<Rightarrow> py_error + pyval list list" where
  "combine species data =
     collect (map (\<lambda>i. case getitem data i of
                          Inl e \<Rightarrow> Inl e
                        | Inr d \<Rightarrow> Inr (species ! i @ map PyFloat d))
                [0..<length species])"

text \<open>
  \<open>write_data\<close>: the rows written to the output file, the header row first. The
  sample names of the header row are \<open>header[1:-1]\<close>.
\<close>

definition write_data :: "string list \<Rightarrow> pyval list list \<Rightarrow> rat list list \<Rightarrow> py_error + pyval list list" where
  "write_data header species data =
     (case combine species data of
        Inl e \<Rightarrow> Inl e
      | Inr combined \<Rightarrow>
          (case sort_rows combined of
             Inl e \<Rightarrow> Inl e
           | Inr sorted_rows \<Rightarrow>
               Inr (map PyStr ([''domain'', ''kingdom'', ''phylum'', ''class'', ''order'', ''family'',
                               ''genus, species''] @ butlast (tl header))
                    # sorted_rows)))"

text \<open>
  The main block, lines 279 to 295, without its two \<open>print\<close> calls: the arguments are
  checked, the input is read, processed and written. The value is the list of rows written
  to the output file.
\<close>

definition main ::
  "(string \<Rightarrow> py_error + int) \<Rightarrow> env \<Rightarrow> (string \<rightharpoonup> string list list) \<Rightarrow> string list \<Rightarrow> world \<Rightarrow>
   ((py_error + pyval list list) \<times> world) option" where
  "main int_of env fs argv w =
     (if length argv = 1 then Some (Inl (SystemExit (''no input file given'' @ [CHR 0x0A])), w)
      else if length argv = 2 then Some (Inl (SystemExit (''no output file give'' @ [CHR 0x0A])), w)
      else
        (case getitem argv 1 of
           Inl e \<Rightarrow> Some (Inl e, w)
         | Inr file \<Rightarrow>
             (case read_data int_of fs file of
                Inl e \<Rightarrow> Some (Inl e, w)
              | Inr (header, species, controls, data) \<Rightarrow>
                  (case process_data env species controls data w of
                     None \<Rightarrow> None
                   | Some (Inl e, w') \<Rightarrow> Some (Inl e, w')
                   | Some (Inr (species_processed, data_processed), w') \<Rightarrow>
                       (case write_data header species_processed data_processed of
                          Inl e \<Rightarrow> Some (Inl e, w')
                        | Inr rows \<Rightarrow> Some (Inr rows, w'))))))"

section \<open>Counting the iterations of the shortening loop\<close>

text \<open>
  The number of times the body of the loop of lines 245 to 247 is entered, from the same
  values as \<open>shorten_name\<close>: the tests and the lookups are those of the loop, and only
  the count is kept. An iteration whose lookup raises is counted.
\<close>

function loop_iterations :: "env \<Rightarrow> checked \<Rightarrow> string list \<Rightarrow> world \<Rightarrow> nat option" where
  "loop_iterations env taxa name w =
     (if truthy taxa then Some 0
      else (case name of
              [] \<Rightarrow> Some 0
            | name0 # rest \<Rightarrow>
                if CHR '' '' \<in> set name0 then
                  (case rsplit1 name0 @ rest of
                     [] \<Rightarrow> Some 1
                   | q # rest' \<Rightarrow>
                       (case otl_checkname env q w of
                          None \<Rightarrow> None
                        | Some (Inl e, w') \<Rightarrow> Some 1
                        | Some (Inr taxa', w') \<Rightarrow>
                            map_option Suc (loop_iterations env taxa' (q # rest') w')))
                else Some 0))"
  by pat_completeness auto
termination
  by (relation "measure (\<lambda>(env, taxa, name, w). length (hd name))")
     (auto dest: rsplit1_shorter)

declare loop_iterations.simps [simp del]

section \<open>An example service\<close>

text \<open>
  A small service to run the definitions on: five names are known, the detail lookup of
  identifier 1 is answered with status 400, and every other name has no match.
\<close>

definition example_taxon :: "string \<Rightarrow> string \<Rightarrow> int \<Rightarrow> taxon" where
  "example_taxon r n i =
     \<lparr>t_rank = r, t_name = n, t_unique_name = n, t_ott_id = i,
      t_tax_sources = [''ncbi:'' @ str_int i]\<rparr>"

definition example_lineage :: "taxon list" where
  "example_lineage =
     [example_taxon ''family'' ''Bacillaceae'' 5, example_taxon ''order'' ''Bacillales'' 4,
      example_taxon ''no rank'' ''cellular organisms'' 3,
      example_taxon ''domain'' ''Bacteria'' 2]"

definition example_post :: "nat \<Rightarrow> request \<Rightarrow> outcome" where
  "example_post k req =
     (case req of
        Match_names names approx \<Rightarrow>
          Returns \<lparr>status_code = 200, json = Results
            (if names = [''bacillus cereus group'', ''bacillus cereus group'']
             then [[example_taxon ''species group'' ''Bacillus cereus group'' 30], []]
             else if names = [''bacillus cereus'', ''bacillus cereus'']
             then [[example_taxon ''species'' ''Bacillus cereus'' 20], []]
             else if names = [''bacillus'', ''bacillus'']
             then [[example_taxon ''genus'' ''Bacillus'' 10], []]
             else if names = [''bacillaceae'', ''bacillaceae'']
             then [[example_taxon ''family'' ''Bacillaceae'' 5], []]
             else if names = [''ghost'', ''ghost'']
             then [[example_taxon ''genus'' ''Ghost'' 1], []]
             else [[], []])\<rparr>
      | Taxon_info_ott_id i lin \<Rightarrow>
          (if i = 1 then Returns \<lparr>status_code = 400, json = Message ''unrecognized id''\<rparr>
           else if i = 5 then
             Returns \<lparr>status_code = 200,
               json = Taxon_info (example_taxon ''family'' ''Bacillaceae'' 5) (tl example_lineage)\<rparr>
           else if i = 10 then
             Returns \<lparr>status_code = 200,
               json = Taxon_info (example_taxon ''genus'' ''Bacillus'' 10) example_lineage\<rparr>
           else if i = 20 then
             Returns \<lparr>status_code = 200,
               json = Taxon_info (example_taxon ''species'' ''Bacillus cereus'' 20)
                        (example_taxon ''genus'' ''Bacillus'' 10 # example_lineage)\<rparr>
           else
             Returns \<lparr>status_code = 200,
               json = Taxon_info (example_taxon ''species group'' ''Bacillus cereus group'' 30)
                        (example_taxon ''genus'' ''Bacillus'' 10 # example_lineage)\<rparr>)
      | Taxon_info_source_id s lin \<Rightarrow> Raises_ConnectionError)"

definition example_env :: env where
  "example_env = \<lparr>post = example_post, ctime = (\<lambda>k. ''Wed Nov  4 10:00:00 2026'')\<rparr>"

definition start :: world where
  "start = \<lparr>calls = 0, stderr = [], warned = [], slept = []\<rparr>"

text \<open>
  The decimal numerals among the strings Python's \<open>int\<close> accepts, with an optional
  minus sign; every other string is refused with ValueError.
\<close>

definition digit_of :: "char \<Rightarrow> int option" where
  "digit_of c = map_of (zip ''0123456789'' [0, 1, 2, 3, 4, 5, 6, 7, 8, 9]) c"

fun digits_value :: "int \<Rightarrow> string \<Rightarrow> py_error + int" where
  "digits_value acc [] = Inr acc"
| "digits_value acc (c # cs) =
     (case digit_of c of
        None \<Rightarrow> Inl ValueError
      | Some d \<Rightarrow> digits_value (10 * acc + d) cs)"

definition int_of_decimal :: "string \<Rightarrow> py_error + int" where
  "int_of_decimal s =
     (case s of
        [] \<Rightarrow> Inl ValueError
      | c # cs \<Rightarrow>
          if c = CHR ''-'' then
            (case cs of
               [] \<Rightarrow> Inl ValueError
             | d # ds \<Rightarrow> (case digits_value 0 cs of Inl e \<Rightarrow> Inl e | Inr v \<Rightarrow> Inr (- v)))
          else digits_value 0 s)"

text \<open>
  An input file with the control column between two sample columns, and the arguments of
  a run on it.
\<close>

definition example_files :: "string \<rightharpoonup> string list list" where
  "example_files =
     [''in.csv'' \<mapsto>
        [[''OTU'', ''siteA'', ''Control'', ''siteB''],
         [''Bacillus'', ''20'', ''10'', ''40''],
         [''Zzz'', ''5'', ''10'', ''60'']]]"

definition example_argv :: "string list" where
  "example_argv = [''process-otu-data.py'', ''in.csv'', ''out.csv'']"

section \<open>Properties of the numeric part\<close>

subsection \<open>Evaluating the overflow test\<close>

text \<open>The bound \<open>2^1024\<close> of the overflow test, written out for evaluation.\<close>

lemma true_divide_code [code]:
  "true_divide a b =
     (if b = 0 then Inl ZeroDivisionError
      else
        (let r = nearest_double a b
         in if 179769313486231590772930519078902473361797697894230657273430081157732675805500963132708477322407536021120113879871393357658789768814416622492847430639474124377767893424865485276302219601246094119453082952085005768838150682342462881473913110540827237163350510684586298239947245938479716304835356329624224137216 \<le> \<bar>r\<bar> then Inl OverflowError else Inr r))"
  by (simp add: true_divide_def)

subsection \<open>Integer division as a double\<close>

lemma round_half_even_le: "r \<le> of_int N \<Longrightarrow> round_half_even r \<le> N"
proof -
  assume r: "r \<le> of_int N"
  have f: "of_int \<lfloor>r\<rfloor> \<le> r" by simp
  have le: "\<lfloor>r\<rfloor> \<le> N" using r by (simp add: floor_le_iff)
  show ?thesis
  proof (cases "\<lfloor>r\<rfloor> = N")
    case True
    then have "r - of_int \<lfloor>r\<rfloor> \<le> 0" using r by simp
    then show ?thesis using True by (simp add: round_half_even_def Let_def)
  next
    case False
    then have "\<lfloor>r\<rfloor> + 1 \<le> N" using le by simp
    then show ?thesis by (simp add: round_half_even_def Let_def)
  qed
qed

lemma round_half_even_ge: "of_int N \<le> r \<Longrightarrow> N \<le> round_half_even r"
proof -
  assume "of_int N \<le> r"
  then have "N \<le> \<lfloor>r\<rfloor>" by (simp add: le_floor_iff)
  then show ?thesis by (simp add: round_half_even_def Let_def)
qed

lemma round_half_even_above_half: "of_int N + 1 / 2 < r \<Longrightarrow> N + 1 \<le> round_half_even r"
proof -
  assume r: "of_int N + 1 / 2 < r"
  then have "of_int N \<le> r" by simp
  then have le: "N \<le> \<lfloor>r\<rfloor>" by (simp add: le_floor_iff)
  show ?thesis
  proof (cases "\<lfloor>r\<rfloor> = N")
    case True
    then have "1 / 2 < r - of_int \<lfloor>r\<rfloor>" using r by simp
    then show ?thesis using True by (simp add: round_half_even_def Let_def)
  next
    case False
    then have "N + 1 \<le> \<lfloor>r\<rfloor>" using le by simp
    then show ?thesis by (simp add: round_half_even_def Let_def)
  qed
qed

lemma floor_log2_bounds:
  assumes n: "0 < n" and d: "0 < d"
  shows "2 powi (floor_log2 n d) \<le> (of_int n / of_int d :: rat)"
    and "(of_int n / of_int d :: rat) < 2 powi (floor_log2 n d + 1)"
proof -
  define k where "k = bitlen n - bitlen d"
  have ln: "1 \<le> bitlen n" and ld: "1 \<le> bitlen d"
    using n d bitlen_eq_zero_iff [of n] bitlen_eq_zero_iff [of d] bitlen_nonneg [of n]
      bitlen_nonneg [of d] by linarith+
  have pw: "(of_int (2 ^ nat j) :: rat) = 2 powi j" if "0 \<le> j" for j
    using that by (simp add: power_int_def)
  have n_lo: "(2 powi (bitlen n - 1) :: rat) \<le> of_int n"
    and n_hi: "(of_int n :: rat) < 2 powi (bitlen n)"
    using bitlen_bounds [OF n] ln pw [of "bitlen n - 1"] pw [of "bitlen n"]
    by (metis diff_ge_0_iff_ge of_int_le_iff, metis bitlen_nonneg of_int_less_iff)
  have d_lo: "(2 powi (bitlen d - 1) :: rat) \<le> of_int d"
    and d_hi: "(of_int d :: rat) < 2 powi (bitlen d)"
    using bitlen_bounds [OF d] ld pw [of "bitlen d - 1"] pw [of "bitlen d"]
    by (metis diff_ge_0_iff_ge of_int_le_iff, metis bitlen_nonneg of_int_less_iff)
  have dpos: "(0 :: rat) < of_int d" using d by simp
  have "(of_int n :: rat) < 2 powi (k + 1) * 2 powi (bitlen d - 1)"
    using n_hi by (simp add: k_def power_int_add [symmetric])
  also have "\<dots> \<le> 2 powi (k + 1) * of_int d"
    using d_lo by (intro mult_left_mono) simp_all
  finally have up: "(of_int n / of_int d :: rat) < 2 powi (k + 1)"
    using dpos by (simp add: pos_divide_less_eq)
  have "(2 powi (k - 1) :: rat) * of_int d < 2 powi (k - 1) * 2 powi (bitlen d)"
    using d_hi by (intro mult_strict_left_mono) simp_all
  also have "\<dots> = 2 powi (bitlen n - 1)"
    by (simp add: k_def power_int_add [symmetric])
  also have "\<dots> \<le> of_int n" by (rule n_lo)
  finally have lo: "(2 powi (k - 1) :: rat) \<le> of_int n / of_int d"
    using dpos by (simp add: pos_le_divide_eq)
  show "2 powi (floor_log2 n d) \<le> (of_int n / of_int d :: rat)"
    using lo by (simp add: floor_log2_def Let_def k_def)
  show "(of_int n / of_int d :: rat) < 2 powi (floor_log2 n d + 1)"
    using up by (auto simp: floor_log2_def Let_def k_def not_le)
qed

lemma quotient_by_signs:
  "(of_int x / of_int c :: rat) = of_int (sgn x * sgn c) * (of_int \<bar>x\<bar> / of_int \<bar>c\<bar>)"
  by (cases "x < 0"; cases "c < 0"; cases "x = 0"; cases "c = 0") (simp_all add: sgn_if)


text \<open>
  With a divisor below \<open>2^52\<close> and a dividend below \<open>2^1023\<close> in magnitude the
  division returns, and the double is at most 1.5 exactly when the quotient is.
\<close>

lemma true_divide_threshold:
  assumes c: "c \<noteq> 0" and cb: "\<bar>c\<bar> < 2 ^ 52" and xb: "\<bar>x\<bar> < 2 ^ 1023"
  shows "\<exists>q. true_divide x c = Inr q \<and> (q \<le> 3 / 2 \<longleftrightarrow> (of_int x / of_int c :: rat) \<le> 3 / 2)"
proof (cases "x = 0")
  case True
  have "(0 :: rat) < 2 powi 1024" by (rule zero_less_power_int) simp
  then show ?thesis using c True by (simp add: true_divide_def nearest_double_def)
next
  case False
  define n where "n = \<bar>x\<bar>"
  define d where "d = \<bar>c\<bar>"
  define a :: rat where "a = of_int n / of_int d"
  define e0 where "e0 = floor_log2 n d"
  define e where "e = max e0 (- 1022)"
  define u :: rat where "u = 2 powi (e - 52)"
  define m where "m = round_half_even (a / u)"
  define s where "s = sgn x * sgn c"
  have n: "0 < n" and d: "0 < d" using False c by (simp_all add: n_def d_def)
  have d1: "(1 :: rat) \<le> of_int d" using d by simp
  have apos: "0 < a" using n d by (simp add: a_def)
  have lo: "2 powi e0 \<le> a" and hi: "a < 2 powi (e0 + 1)"
    using floor_log2_bounds [OF n d] by (simp_all add: a_def e0_def)
  have upos: "0 < u" unfolding u_def by (rule zero_less_power_int) simp
  have nd: "nearest_double x c = of_int s * of_int m * u"
    using False by (simp add: nearest_double_def Let_def s_def m_def u_def e_def e0_def a_def n_def d_def)
  have quot: "(of_int x / of_int c :: rat) = of_int s * a"
    unfolding s_def a_def n_def d_def by (rule quotient_by_signs)
  have s_cases: "s = 1 \<or> s = - 1"
    using False c by (auto simp: s_def sgn_if)
  have u53: "u * 2 ^ 53 = 2 powi (e + 1)"
  proof -
    have "u * 2 powi 53 = 2 powi (e - 52 + 53)"
      unfolding u_def by (rule power_int_add [symmetric]) simp
    then show ?thesis by (simp add: add.commute)
  qed
  have u52: "u * 2 ^ 52 = 2 powi e"
  proof -
    have "u * 2 powi 52 = 2 powi (e - 52 + 52)"
      unfolding u_def by (rule power_int_add [symmetric]) simp
    then show ?thesis by simp
  qed
  have "(2 powi (e0 + 1) :: rat) \<le> 2 powi (e + 1)"
    by (rule power_int_increasing) (simp_all add: e_def)
  then have "a < u * 2 ^ 53" using hi u53 by simp
  then have scaled_hi: "a / u < 2 ^ 53" using upos by (simp add: pos_divide_less_eq mult.commute)
  have "a / u \<le> of_int (2 ^ 53)" using scaled_hi by simp
  then have m_le: "m \<le> 2 ^ 53" unfolding m_def by (rule round_half_even_le)
  have "of_int 0 \<le> a / u" using apos upos by simp
  then have m_ge: "0 \<le> m" unfolding m_def by (rule round_half_even_ge)
  have r_le: "of_int m * u \<le> 2 powi (e + 1)"
  proof -
    have "(of_int m :: rat) \<le> 2 ^ 53" using m_le by (metis of_int_le_iff of_int_numeral of_int_power)
    then have "of_int m * u \<le> 2 ^ 53 * u" using upos by (intro mult_right_mono) simp_all
    then show ?thesis using u53 by (simp add: mult.commute)
  qed
  have a_le_n: "a \<le> of_int n"
  proof -
    have "(of_int n :: rat) / of_int d \<le> of_int n / 1"
      using n d1 by (intro divide_left_mono) simp_all
    then show ?thesis by (simp add: a_def)
  qed
  have e0_lt: "e0 < 1023"
  proof (rule ccontr)
    assume "\<not> e0 < 1023"
    then have "(2 powi 1023 :: rat) \<le> 2 powi e0" by (intro power_int_increasing) simp_all
    also have "\<dots> \<le> of_int n" using lo a_le_n by simp
    finally have "(2 ^ 1023 :: rat) \<le> of_int n" by simp
    then have "(2 ^ 1023 :: int) \<le> n" by (metis of_int_le_iff of_int_numeral of_int_power)
    then show False using xb by (simp add: n_def)
  qed
  have "(2 powi (e + 1) :: rat) \<le> 2 powi 1023"
    using e0_lt by (intro power_int_increasing) (simp_all add: e_def)
  also have "(2 powi 1023 :: rat) < 2 powi 1024"
    by (intro power_int_strict_increasing) simp_all
  finally have "of_int m * u < 2 powi 1024" using r_le by simp
  moreover have "\<bar>of_int s * of_int m * u\<bar> = of_int m * u"
    using s_cases m_ge upos by (auto simp: abs_mult)
  ultimately have td: "true_divide x c = Inr (of_int s * of_int m * u)"
    using c by (simp add: true_divide_def nd Let_def)
  have mu_nonneg: "0 \<le> of_int m * u" using m_ge upos by simp
  show ?thesis
  proof (cases "s = 1")
    case False
    then have s: "s = - 1" using s_cases by simp
    have "of_int s * of_int m * u \<le> 3 / 2" using mu_nonneg by (simp add: s)
    moreover have "(of_int x / of_int c :: rat) \<le> 3 / 2" using apos by (simp add: quot s)
    ultimately show ?thesis using td by simp
  next
    case True
    have q: "of_int s * of_int m * u = of_int m * u" by (simp add: True)
    have xa: "(of_int x / of_int c :: rat) = a" by (simp add: quot True)
    consider "2 \<le> a" | "a < 1" | "1 \<le> a" "a < 2" by linarith
    then have "of_int m * u \<le> 3 / 2 \<longleftrightarrow> a \<le> 3 / 2"
    proof cases
      case 1
      have "1 \<le> e0"
      proof (rule ccontr)
        assume "\<not> 1 \<le> e0"
        then have "(2 powi (e0 + 1) :: rat) \<le> 2 powi 1" by (intro power_int_increasing) simp_all
        then show False using hi 1 by simp
      qed
      then have ee: "e = e0" "1 \<le> e" by (simp_all add: e_def)
      have "u * 2 ^ 52 \<le> a" using lo u52 ee by simp
      then have "of_int (2 ^ 52) \<le> a / u" using upos by (simp add: pos_le_divide_eq mult.commute)
      then have "2 ^ 52 \<le> m" unfolding m_def by (rule round_half_even_ge)
      then have "(2 ^ 52 :: rat) \<le> of_int m" by (metis of_int_le_iff of_int_numeral of_int_power)
      then have "2 ^ 52 * u \<le> of_int m * u" using upos by (intro mult_right_mono) simp_all
      then have "2 powi e \<le> of_int m * u" using u52 by (simp add: mult.commute)
      moreover have "(2 powi 1 :: rat) \<le> 2 powi e" using ee by (intro power_int_increasing) simp_all
      ultimately have "2 \<le> of_int m * u" by simp
      then show ?thesis using 1 by simp
    next
      case 2
      have "e0 \<le> - 1"
      proof (rule ccontr)
        assume "\<not> e0 \<le> - 1"
        then have "(2 powi 0 :: rat) \<le> 2 powi e0" by (intro power_int_increasing) simp_all
        then show False using lo 2 by simp
      qed
      then have "e + 1 \<le> 0" by (simp add: e_def)
      then have "(2 powi (e + 1) :: rat) \<le> 2 powi 0" by (intro power_int_increasing) simp_all
      then have "of_int m * u \<le> 1" using r_le by simp
      then show ?thesis using 2 by simp
    next
      case 3
      have "0 \<le> e0"
      proof (rule ccontr)
        assume "\<not> 0 \<le> e0"
        then have "(2 powi (e0 + 1) :: rat) \<le> 2 powi 0" by (intro power_int_increasing) simp_all
        then show False using hi 3 by simp
      qed
      moreover have "e0 \<le> 0"
      proof (rule ccontr)
        assume "\<not> e0 \<le> 0"
        then have "(2 powi 1 :: rat) \<le> 2 powi e0" by (intro power_int_increasing) simp_all
        then show False using lo 3 by simp
      qed
      ultimately have e: "e = 0" by (simp add: e_def)
      have u: "u = 1 / 2 ^ 52" by (simp add: u_def e power_int_minus inverse_eq_divide)
      have scaled: "a / u = a * 2 ^ 52" by (simp add: u)
      show ?thesis
      proof (cases "a \<le> 3 / 2")
        case True
        then have "a / u \<le> of_int (3 * 2 ^ 51)" by (simp add: scaled)
        then have "m \<le> 3 * 2 ^ 51" unfolding m_def by (rule round_half_even_le)
        then have "(of_int m :: rat) \<le> of_int (3 * 2 ^ 51)" by (simp only: of_int_le_iff)
        then have "of_int m * u \<le> 3 / 2" by (simp add: u)
        then show ?thesis using True by simp
      next
        case False
        then have "3 / 2 < of_int n / (of_int d :: rat)" by (simp add: a_def)
        then have "3 / 2 * of_int d < (of_int n :: rat)"
          using d by (simp only: pos_less_divide_eq of_int_0_less_iff)
        then have "3 * of_int d < (2 :: rat) * of_int n" by simp
        then have "3 * d < 2 * n" by (metis (mono_tags) of_int_less_iff of_int_mult of_int_numeral)
        then have "3 * d + 1 \<le> 2 * n" by simp
        then have "(of_int (3 * d + 1) :: rat) \<le> of_int (2 * n)" by (simp only: of_int_le_iff)
        then have gap: "3 * of_int d + 1 \<le> (2 :: rat) * of_int n" by simp
        have "(of_int d :: rat) < 2 ^ 52"
          using cb by (metis d_def of_int_less_iff of_int_numeral of_int_power)
        then have "of_int (3 * 2 ^ 51) + 1 / 2 < a * 2 ^ 52"
          using gap d by (simp add: a_def pos_less_divide_eq field_simps)
        then have "of_int (3 * 2 ^ 51) + 1 / 2 < a / u" by (simp add: scaled)
        then have "3 * 2 ^ 51 + 1 \<le> m" unfolding m_def by (rule round_half_even_above_half)
        then have "(of_int (3 * 2 ^ 51 + 1) :: rat) \<le> of_int m" by (simp only: of_int_le_iff)
        then have "3 / 2 < of_int m * u" by (simp add: u field_simps)
        then show ?thesis using False by simp
      qed
    qed
    then show ?thesis using td by (simp add: q xa)
  qed
qed

text \<open>A quotient of \<open>2^1024\<close> or more in magnitude is out of the range of a double.\<close>

lemma true_divide_overflow:
  assumes c: "c \<noteq> 0" and big: "2 ^ 1024 * \<bar>c\<bar> \<le> \<bar>x\<bar>"
  shows "true_divide x c = Inl OverflowError"
proof -
  define n where "n = \<bar>x\<bar>"
  define d where "d = \<bar>c\<bar>"
  define a :: rat where "a = of_int n / of_int d"
  define e0 where "e0 = floor_log2 n d"
  define e where "e = max e0 (- 1022)"
  define u :: rat where "u = 2 powi (e - 52)"
  define m where "m = round_half_even (a / u)"
  define s where "s = sgn x * sgn c"
  have d: "0 < d" using c by (simp add: d_def)
  have "(0 :: int) < 2 ^ 1024 * d" using d by simp
  then have n: "0 < n" using big by (simp add: n_def d_def)
  have x: "x \<noteq> 0" using n by (auto simp: n_def)
  have "(of_int (2 ^ 1024 * d) :: rat) \<le> of_int n"
    using big unfolding n_def d_def by (simp only: of_int_le_iff)
  then have "(2 ^ 1024 :: rat) * of_int d \<le> of_int n" by simp
  then have "(2 ^ 1024 :: rat) \<le> a" using d by (simp add: a_def pos_le_divide_eq)
  then have a_big: "(2 powi 1024 :: rat) \<le> a" by simp
  have lo: "2 powi e0 \<le> a" and hi: "a < 2 powi (e0 + 1)"
    using floor_log2_bounds [OF n d] by (simp_all add: a_def e0_def)
  have upos: "0 < u" unfolding u_def by (rule zero_less_power_int) simp
  have "1024 \<le> e0"
  proof (rule ccontr)
    assume "\<not> 1024 \<le> e0"
    then have "(2 powi (e0 + 1) :: rat) \<le> 2 powi 1024" by (intro power_int_increasing) simp_all
    then show False using hi a_big by simp
  qed
  then have ee: "e = e0" "1024 \<le> e" by (simp_all add: e_def)
  have u52: "u * 2 ^ 52 = 2 powi e"
  proof -
    have "u * 2 powi 52 = 2 powi (e - 52 + 52)"
      unfolding u_def by (rule power_int_add [symmetric]) simp
    then show ?thesis by simp
  qed
  have "u * 2 ^ 52 \<le> a" using lo u52 ee by simp
  then have "of_int (2 ^ 52) \<le> a / u" using upos by (simp add: pos_le_divide_eq mult.commute)
  then have m52: "2 ^ 52 \<le> m" unfolding m_def by (rule round_half_even_ge)
  then have "(2 ^ 52 :: rat) \<le> of_int m" by (metis of_int_le_iff of_int_numeral of_int_power)
  then have "2 ^ 52 * u \<le> of_int m * u" using upos by (intro mult_right_mono) simp_all
  then have "2 powi e \<le> of_int m * u" using u52 by (simp add: mult.commute)
  moreover have "(2 powi 1024 :: rat) \<le> 2 powi e" using ee by (intro power_int_increasing) simp_all
  ultimately have r_big: "2 powi 1024 \<le> of_int m * u" by simp
  have s_cases: "s = 1 \<or> s = - 1" using x c by (auto simp: s_def sgn_if)
  have "0 \<le> m" using m52 by simp
  then have "\<bar>of_int s * of_int m * u\<bar> = of_int m * u"
    using s_cases upos by (auto simp: abs_mult)
  moreover have "nearest_double x c = of_int s * of_int m * u"
    using x by (simp add: nearest_double_def Let_def s_def m_def u_def e_def e0_def a_def n_def d_def)
  ultimately show ?thesis using c r_big by (simp add: true_divide_def Let_def)
qed

subsection \<open>The pruning loop\<close>

text \<open>
  At the pruning value of the script, with a control below \<open>2^52\<close> and a count below
  \<open>2^1023\<close> in magnitude, a cell is pruned by the exact quotient.
\<close>

lemma prune_cell_exact:
  assumes "\<bar>c\<bar> < 2 ^ 52" and "\<bar>x\<bar> < 2 ^ 1023"
  shows "prune_cell PRUNING_VALUE c x =
     Inr (if c = 0 then x else if (of_int x / of_int c :: rat) \<le> PRUNING_VALUE then 0 else x)"
proof (cases "c = 0")
  case True
  then show ?thesis by (simp add: prune_cell_def)
next
  case False
  obtain q where "true_divide x c = Inr q"
    and "q \<le> 3 / 2 \<longleftrightarrow> (of_int x / of_int c :: rat) \<le> 3 / 2"
    using true_divide_threshold [OF False assms] by blast
  then show ?thesis using False by (simp add: prune_cell_def PRUNING_VALUE_def)
qed


lemma prune_row_cells:
  "prune_row pv controls i xs = Inr ys \<Longrightarrow>
   length ys = length xs \<and>
   (\<forall>j<length xs. prune_cell pv (controls ! i) (xs ! j) = Inr (ys ! j))"
proof (induction xs arbitrary: ys)
  case Nil
  then show ?case by simp
next
  case (Cons x xs)
  from Cons.prems obtain c y ys' where c: "getitem controls i = Inr c"
    and y: "prune_cell pv c x = Inr y"
    and r: "prune_row pv controls i xs = Inr ys'"
    and ys: "ys = y # ys'"
    by (auto split: sum.splits)
  have ci: "c = controls ! i" using c by (simp add: getitem_def split: if_splits)
  have IH: "length ys' = length xs"
    "\<forall>j<length xs. prune_cell pv (controls ! i) (xs ! j) = Inr (ys' ! j)"
    using Cons.IH [OF r] by simp_all
  have "prune_cell pv (controls ! i) ((x # xs) ! j) = Inr (ys ! j)" if "j < length (x # xs)" for j
    using that y ci IH(2) ys by (cases j) simp_all
  then show ?case using IH(1) ys by simp
qed

lemma prune_rows_cells:
  "prune_rows pv controls i rows = Inr out \<Longrightarrow>
   length out = length rows \<and>
   (\<forall>k<length rows. prune_row pv controls (i + k) (rows ! k) = Inr (out ! k))"
proof (induction rows arbitrary: i out)
  case Nil
  then show ?case by simp
next
  case (Cons r rows)
  from Cons.prems obtain r' out' where r': "prune_row pv controls i r = Inr r'"
    and rest: "prune_rows pv controls (Suc i) rows = Inr out'"
    and out: "out = r' # out'"
    by (auto split: sum.splits)
  have IH: "length out' = length rows"
    "\<forall>k<length rows. prune_row pv controls (Suc i + k) (rows ! k) = Inr (out' ! k)"
    using Cons.IH [OF rest] by simp_all
  have "prune_row pv controls (i + k) ((r # rows) ! k) = Inr (out ! k)"
    if "k < length (r # rows)" for k
    using that r' IH(2) out by (cases k) simp_all
  then show ?case using IH(1) out by simp
qed

lemma prune_counts_shape:
  assumes "prune_counts pv controls data = Inr pruned"
  shows "length pruned = length data"
    and "i < length data \<Longrightarrow> length (pruned ! i) = length (data ! i)"
    and "i < length data \<Longrightarrow> j < length (data ! i) \<Longrightarrow>
         prune_cell pv (controls ! i) (data ! i ! j) = Inr (pruned ! i ! j)"
proof -
  have rows: "length pruned = length data"
    "\<forall>k<length data. prune_row pv controls (0 + k) (data ! k) = Inr (pruned ! k)"
    using prune_rows_cells [of pv controls 0 data pruned] assms by (simp_all add: prune_counts_def)
  show "length pruned = length data" by (rule rows(1))
  show "length (pruned ! i) = length (data ! i)" if "i < length data"
    using rows(2) that prune_row_cells [of pv controls i "data ! i" "pruned ! i"] by simp
  show "prune_cell pv (controls ! i) (data ! i ! j) = Inr (pruned ! i ! j)"
    if "i < length data" and "j < length (data ! i)"
    using rows(2) that prune_row_cells [of pv controls i "data ! i" "pruned ! i"] by simp
qed

lemma prune_counts_rect:
  assumes "prune_counts pv controls data = Inr pruned" and "\<forall>r\<in>set data. length r = n"
  shows "\<forall>r\<in>set pruned. length r = n"
proof
  fix r assume "r \<in> set pruned"
  then obtain i where i: "i < length pruned" "r = pruned ! i"
    by (auto simp: in_set_conv_nth)
  then have "i < length data" using prune_counts_shape(1) [OF assms(1)] by simp
  then show "length r = n"
    using prune_counts_shape(2) [OF assms(1)] i assms(2) by simp
qed


text \<open>The loop returns when every division it makes returns.\<close>

lemma prune_row_total:
  assumes "i < length controls"
    and "\<forall>x\<in>set xs. \<exists>y. prune_cell pv (controls ! i) x = Inr y"
  shows "\<exists>ys. prune_row pv controls i xs = Inr ys"
  using assms(2) by (induction xs) (auto simp: getitem_def assms(1))

lemma prune_rows_total:
  "i + length rows \<le> length controls \<Longrightarrow>
   \<forall>k<length rows. \<forall>x\<in>set (rows ! k). \<exists>y. prune_cell pv (controls ! (i + k)) x = Inr y \<Longrightarrow>
   \<exists>out. prune_rows pv controls i rows = Inr out"
proof (induction rows arbitrary: i)
  case Nil
  then show ?case by simp
next
  case (Cons r rows)
  have "i < length controls" using Cons.prems(1) by simp
  moreover have "\<forall>x\<in>set r. \<exists>y. prune_cell pv (controls ! i) x = Inr y"
    using Cons.prems(2) by fastforce
  ultimately obtain r' where r': "prune_row pv controls i r = Inr r'"
    using prune_row_total by blast
  have "Suc i + length rows \<le> length controls" using Cons.prems(1) by simp
  moreover have "\<forall>k<length rows. \<forall>x\<in>set (rows ! k).
      \<exists>y. prune_cell pv (controls ! (Suc i + k)) x = Inr y"
    using Cons.prems(2) by fastforce
  ultimately obtain out where "prune_rows pv controls (Suc i) rows = Inr out"
    using Cons.IH by blast
  then show ?case using r' by simp
qed

subsection \<open>Column sums\<close>

lemma fold_min_lengths: "\<forall>r\<in>set rs. length r = n \<Longrightarrow> fold min (map length rs) n = n"
  by (induction rs) simp_all

lemma zip_star_rect:
  assumes "rows \<noteq> []" and "\<forall>r\<in>set rows. length r = n"
  shows "zip_star rows = map (\<lambda>j. map (\<lambda>row. row ! j) rows) [0..<n]"
proof (cases rows)
  case Nil
  then show ?thesis using assms by simp
next
  case (Cons r rs)
  then have "length r = n" "\<forall>r\<in>set rs. length r = n" using assms by simp_all
  then show ?thesis
    by (simp add: zip_star_def Cons fold_min_lengths)
qed

lemma get_sums_rect:
  assumes "rows \<noteq> []" and "\<forall>r\<in>set rows. length r = n"
  shows "length (get_sums rows) = n"
    and "j < n \<Longrightarrow> get_sums rows ! j = sum_list (map (\<lambda>row. row ! j) rows)"
  using zip_star_rect [OF assms] by (simp_all add: get_sums_def)

subsection \<open>The division loop\<close>

lemma proportion_row_Inr:
  "j + length xs \<le> length sums' \<Longrightarrow> \<forall>k<length xs. sums' ! (j + k) \<noteq> 0 \<Longrightarrow>
   proportion_row sums' j xs =
     Inr (map (\<lambda>k. of_int (xs ! k) / of_int (sums' ! (j + k))) [0..<length xs])"
proof (induction xs arbitrary: j)
  case Nil
  then show ?case by simp
next
  case (Cons x xs)
  have j: "j < length sums'" "sums' ! j \<noteq> 0" using Cons.prems by auto
  have "Suc j + length xs \<le> length sums'" using Cons.prems by simp
  moreover have "\<forall>k<length xs. sums' ! (Suc j + k) \<noteq> 0"
    using Cons.prems(2) by (metis Suc_less_eq add_Suc_right add_Suc length_Cons)
  ultimately have IH: "proportion_row sums' (Suc j) xs =
     Inr (map (\<lambda>k. of_int (xs ! k) / of_int (sums' ! (Suc j + k))) [0..<length xs])"
    by (rule Cons.IH)
  have "map (\<lambda>k. rat_of_int ((x # xs) ! k) / rat_of_int (sums' ! (j + k))) [0..<length (x # xs)] =
        rat_of_int x / rat_of_int (sums' ! j) #
        map (\<lambda>k. rat_of_int (xs ! k) / rat_of_int (sums' ! (Suc j + k))) [0..<length xs]"
    by (simp add: map_upt_Suc del: upt_Suc)
  then show ?case using j IH by (simp add: getitem_def)
qed

lemma proportion_row_zero:
  "j + length xs \<le> length sums' \<Longrightarrow> \<exists>k<length xs. sums' ! (j + k) = 0 \<Longrightarrow>
   proportion_row sums' j xs = Inl ZeroDivisionError"
proof (induction xs arbitrary: j)
  case Nil
  then show ?case by simp
next
  case (Cons x xs)
  have j: "j < length sums'" using Cons.prems by auto
  show ?case
  proof (cases "sums' ! j = 0")
    case True
    then show ?thesis using j by (simp add: getitem_def)
  next
    case False
    obtain k where k: "k < length (x # xs)" "sums' ! (j + k) = 0" using Cons.prems(2) by blast
    then have "k \<noteq> 0" using False by (cases k) auto
    then obtain k' where k': "k = Suc k'" by (cases k) auto
    have "Suc j + length xs \<le> length sums'" using Cons.prems by simp
    moreover have "\<exists>k<length xs. sums' ! (Suc j + k) = 0" using k k' by auto
    ultimately have "proportion_row sums' (Suc j) xs = Inl ZeroDivisionError" by (rule Cons.IH)
    then show ?thesis using j False by (simp add: getitem_def)
  qed
qed

lemma get_proportions_Inr:
  assumes "\<forall>r\<in>set rows. length r = length sums'" and "\<forall>k<length sums'. sums' ! k \<noteq> 0"
  shows "get_proportions sums' rows =
     Inr (map (\<lambda>r. map (\<lambda>k. of_int (r ! k) / of_int (sums' ! k)) [0..<length sums']) rows)"
  using assms(1)
proof (induction rows)
  case Nil
  then show ?case by simp
next
  case (Cons r rows)
  have "proportion_row sums' 0 r =
     Inr (map (\<lambda>k. of_int (r ! k) / of_int (sums' ! (0 + k))) [0..<length r])"
    using Cons.prems assms(2) by (intro proportion_row_Inr) simp_all
  then show ?case using Cons by simp
qed

lemma get_proportions_zero:
  assumes "\<forall>r\<in>set rows. length r = length sums'" and "rows \<noteq> []"
    and "k < length sums'" and "sums' ! k = 0"
  shows "get_proportions sums' rows = Inl ZeroDivisionError"
proof (cases rows)
  case Nil
  then show ?thesis using assms by simp
next
  case (Cons r rs)
  have "proportion_row sums' 0 r = Inl ZeroDivisionError"
    using assms Cons by (intro proportion_row_zero) auto
  then show ?thesis using Cons by simp
qed




text \<open>
  On a table with rows of one length and a control for every row, the two loops either
  divide every cell by the sum of its column or stop at a zero sum.
\<close>

lemma prune_and_normalize_rect:
  assumes rect: "\<forall>r\<in>set data. length r = n"
    and ctl: "length data \<le> length controls"
    and pr: "prune_counts pv controls data = Inr pruned"
    and ne: "data \<noteq> []"
  shows "prune_and_normalize pv controls data =
     (if \<forall>j<n. sum_list (map (\<lambda>r. r ! j) pruned) \<noteq> 0
      then Inr (map (\<lambda>r. map (\<lambda>k. of_int (r ! k) / of_int (sum_list (map (\<lambda>r. r ! k) pruned)))
                       [0..<n]) pruned)
      else Inl ZeroDivisionError)"
proof -
  have prect: "\<forall>r\<in>set pruned. length r = n"
    using prune_counts_rect [OF pr rect] .
  have pne: "pruned \<noteq> []"
    using prune_counts_shape(1) [OF pr] ne by auto
  have len: "length (get_sums pruned) = n"
    and nth: "\<And>j. j < n \<Longrightarrow> get_sums pruned ! j = sum_list (map (\<lambda>row. row ! j) pruned)"
    using get_sums_rect [OF pne prect] by simp_all
  have pn: "prune_and_normalize pv controls data = get_proportions (get_sums pruned) pruned"
    by (simp add: prune_and_normalize_def pr)
  show ?thesis
  proof (cases "\<forall>j<n. sum_list (map (\<lambda>r. r ! j) pruned) \<noteq> 0")
    case True
    have "get_proportions (get_sums pruned) pruned =
       Inr (map (\<lambda>r. map (\<lambda>k. of_int (r ! k) / of_int (get_sums pruned ! k))
                    [0..<length (get_sums pruned)]) pruned)"
      using prect len nth True by (intro get_proportions_Inr) simp_all
    also have "\<dots> = Inr (map (\<lambda>r. map (\<lambda>k. of_int (r ! k) /
                          of_int (sum_list (map (\<lambda>r. r ! k) pruned))) [0..<n]) pruned)"
      using nth by (simp add: len)
    finally show ?thesis using True pn by simp
  next
    case False
    then obtain j where j: "j < n" "sum_list (map (\<lambda>r. r ! j) pruned) = 0" by blast
    have "get_proportions (get_sums pruned) pruned = Inl ZeroDivisionError"
      using prect pne j len nth by (intro get_proportions_zero [where k = j]) simp_all
    then show ?thesis using False pn by simp
  qed
qed


section \<open>Claims about pruning and normalisation\<close>

text \<open>
  C1, amended. At the pruning value of the script, with a control for every row, every
  control below \<open>2^52\<close> and every count below \<open>2^1023\<close> in magnitude, the pruning loop
  returns a table of the shape of the counts, and for every row \<open>i\<close> and column \<open>j\<close>:
  when \<open>controls[i]\<close> is 0 the count is kept; otherwise a count with
  \<open>counts[i][j] / controls[i] \<le> 1.5\<close> becomes 0 and a count above it is kept.
\<close>

theorem prune_counts_cells:
  assumes ctl: "length data \<le> length controls"
    and cb: "\<forall>c\<in>set controls. \<bar>c\<bar> < 2 ^ 52"
    and xb: "\<forall>r\<in>set data. \<forall>x\<in>set r. \<bar>x\<bar> < 2 ^ 1023"
  shows "\<exists>pruned. prune_counts PRUNING_VALUE controls data = Inr pruned \<and>
    length pruned = length data \<and>
    (\<forall>i<length data. length (pruned ! i) = length (data ! i) \<and>
       (\<forall>j<length (data ! i). pruned ! i ! j =
          (if controls ! i = 0 then data ! i ! j
           else if of_int (data ! i ! j) / of_int (controls ! i) \<le> PRUNING_VALUE then 0
           else data ! i ! j)))"
proof -
  have cell: "prune_cell PRUNING_VALUE (controls ! i) x =
      Inr (if controls ! i = 0 then x
           else if of_int x / of_int (controls ! i) \<le> PRUNING_VALUE then 0 else x)"
    if i: "i < length data" and x: "x \<in> set (data ! i)" for i x
  proof -
    have "controls ! i \<in> set controls" using i ctl by simp
    then have "\<bar>controls ! i\<bar> < 2 ^ 52" using cb by blast
    moreover have "data ! i \<in> set data" using i by simp
    then have "\<bar>x\<bar> < 2 ^ 1023" using xb x by blast
    ultimately show ?thesis by (rule prune_cell_exact)
  qed
  have "\<exists>out. prune_rows PRUNING_VALUE controls 0 data = Inr out"
    using ctl cell by (intro prune_rows_total) auto
  then obtain pruned where pr: "prune_counts PRUNING_VALUE controls data = Inr pruned"
    by (auto simp: prune_counts_def)
  have len: "length pruned = length data"
    using prune_counts_shape(1) [OF pr] .
  have "length (pruned ! i) = length (data ! i) \<and>
       (\<forall>j<length (data ! i). pruned ! i ! j =
          (if controls ! i = 0 then data ! i ! j
           else if of_int (data ! i ! j) / of_int (controls ! i) \<le> PRUNING_VALUE then 0
           else data ! i ! j))"
    if i: "i < length data" for i
  proof -
    have "pruned ! i ! j =
          (if controls ! i = 0 then data ! i ! j
           else if of_int (data ! i ! j) / of_int (controls ! i) \<le> PRUNING_VALUE then 0
           else data ! i ! j)"
      if j: "j < length (data ! i)" for j
    proof -
      have "data ! i ! j \<in> set (data ! i)" using j by simp
      then show ?thesis
        using cell [OF i] prune_counts_shape(3) [OF pr i j] by simp
    qed
    then show ?thesis using prune_counts_shape(2) [OF pr i] by simp
  qed
  then show ?thesis using pr len by blast
qed

theorem prune_counts_cells_witness:
  "length [[20, 30], [5, 16], [1, 0 :: int]] \<le> length [10, 10, 0 :: int] \<and>
   prune_counts PRUNING_VALUE [10, 10, 0] [[20, 30], [5, 16], [1, 0]] =
     Inr [[20, 30], [0, 16], [1, 0]]"
proof -
  have pr: "prune_counts PRUNING_VALUE [10, 10, 0] [[20, 30], [5, 16], [1, 0]] =
      Inr [[20, 30], [0, 16], [1, 0]]"
    by code_simp
  show ?thesis
    using prune_counts_cells [of "[[20, 30], [5, 16], [1, 0]]" "[10, 10, 0]"] pr
    by simp
qed

text \<open>
  C1 as stated fails beyond those magnitudes, where the script compares the rounded
  quotient: with the control 20000000000000000 the count 30000000000000001 has a quotient
  above 1.5 that rounds to 1.5, and the count is pruned; and a count of \<open>10^309\<close> with
  the control 1 makes the division raise OverflowError.
\<close>

theorem prune_counts_cells_counterexample:
  "prune_counts PRUNING_VALUE [20000000000000000] [[30000000000000001]] = Inr [[0]] \<and>
   PRUNING_VALUE < 30000000000000001 / 20000000000000000 \<and>
   prune_counts PRUNING_VALUE [1] [[10 ^ 309]] = Inl OverflowError"
proof -
  have "prune_counts PRUNING_VALUE [20000000000000000] [[30000000000000001]] = Inr [[0]]"
    by code_simp
  moreover have "PRUNING_VALUE < 30000000000000001 / 20000000000000000"
    by (simp add: PRUNING_VALUE_def)
  moreover have "true_divide (10 ^ 309) 1 = Inl OverflowError"
    by (rule true_divide_overflow) simp_all
  then have "prune_counts PRUNING_VALUE [1] [[10 ^ 309]] = Inl OverflowError"
    by (simp add: prune_counts_def getitem_def prune_cell_def)
  ultimately show ?thesis by simp
qed







section \<open>Claims about the lookups\<close>

subsection \<open>The detail lookup and the name check\<close>

lemma otl_taxon_client_error:
  assumes "post env (calls w) (Taxon_info_ott_id q True) = Returns res"
    and "status_code res = 400" and "json res = Message m"
  shows "otl_taxon env q wait_time False w =
     Some (Inr None, w\<lparr>calls := Suc (calls w), stderr := stderr w @ [m, ''skipping'']\<rparr>)"
  by (subst otl_taxon.simps) (simp add: assms)

lemma taxonomy_OTT_client_error:
  assumes "post env (calls w) (Taxon_info_ott_id q True) = Returns res"
    and "status_code res = 400" and "json res = Message m"
  shows "taxonomy_OTT env q w =
     Some (Inl AttributeError,
           w\<lparr>calls := Suc (calls w), stderr := stderr w @ [m, ''skipping'']\<rparr>)"
  by (simp add: taxonomy_OTT_def otl_taxon_client_error [OF assms])

lemma otl_checkname_raises:
  assumes "otl_tnrs env query False 600 w = Some (res, w1)"
    and "json res = Results ((result # ms) # rs)"
    and "taxonomy_OTT env (t_ott_id result) w1 = Some (Inl e, w2)"
  shows "otl_checkname env query w = Some (Inl e, w2)"
  by (simp add: otl_checkname_def assms)

lemma otl_checkname_rejected:
  assumes "otl_tnrs env query False 600 w = Some (res, w1)"
    and "json res = Results ((result # ms) # rs)"
    and "taxonomy_OTT env (t_ott_id result) w1 = Some (Inr ht, w2)"
    and "t_rank result \<noteq> ''species''" and "t_rank result \<noteq> ''genus''"
  shows "otl_checkname env query w =
     Some (Inr PyNone,
           w2\<lparr>warned := warned w2 @ [query @ '': found in ott, but not as genus or species'']\<rparr>)"
  by (simp add: otl_checkname_def assms)

lemma otl_checkname_zero_matches:
  assumes "otl_tnrs env query False 600 w = Some (res, w1)"
    and "json res = Results ([] # rs)"
  shows "otl_checkname env query w = Some (Inr EmptyDict, w1)"
  by (simp add: otl_checkname_def assms)

lemma otl_checkname_accepted:
  assumes "otl_checkname env query w = Some (Inr (OutDict d), w2)"
  shows "\<exists>res w1 result ms rs.
           otl_tnrs env query False 600 w = Some (res, w1) \<and>
           json res = Results ((result # ms) # rs) \<and>
           current_name d = t_name result \<and>
           (t_rank result = ''species'' \<or> t_rank result = ''genus'')"
  using assms
  by (auto simp: otl_checkname_def
      split: option.splits prod.splits body.splits list.splits sum.splits if_splits)

subsection \<open>One label\<close>

lemma species_row_unresolved:
  "\<not> truthy taxa \<Longrightarrow>
   species_row taxa name sp =
     [PyStr ''-'', PyStr ''-'', PyStr ''-'', PyStr ''-'', PyStr ''-'', PyStr ''-'', PyStr sp]"
  by (cases taxa) (simp_all add: species_row_def)

lemma length_species_row: "length (species_row taxa name sp) = 7"
  by (cases taxa) (simp_all add: species_row_def)

lemma shorten_name_no_space:
  "CHR '' '' \<notin> set sp \<Longrightarrow> shorten_name env taxa [sp] w = Some (Inr (taxa, [sp]), w)"
  by (subst shorten_name.simps) simp

lemma resolve_raises:
  "otl_checkname env sp w = Some (Inl e, w1) \<Longrightarrow> resolve env sp w = Some (Inl e, w1)"
  by (simp add: resolve_def)

lemma resolve_no_space:
  assumes "CHR '' '' \<notin> set sp" and "otl_checkname env sp w = Some (Inr taxa, w1)"
  shows "resolve env sp w = Some (Inr (species_row taxa [sp] sp), w1)"
  by (simp add: resolve_def assms shorten_name_no_space)

text \<open>
  C4. A detail lookup answered with status 400 is not tried again: after that one call
  \<open>otl_taxon\<close> has written the message and \<open>skipping\<close> to the diagnostic stream, has
  not slept, and returns \<open>None\<close>. The caller then reads \<open>res.json()\<close> of that
  \<open>None\<close>: the resolution of the label raises AttributeError, and so does
  \<open>process_data\<close>, instead of going on to the unresolved row.
\<close>

theorem client_error_aborts_run:
  assumes tnrs: "otl_tnrs env sp False 600 w = Some (res, w1)"
    and matches: "json res = Results ((result # ms) # rs)"
    and post: "post env (calls w1) (Taxon_info_ott_id (t_ott_id result) True) = Returns res'"
    and status: "status_code res' = 400"
    and message: "json res' = Message m"
    and counts: "prune_and_normalize PRUNING_VALUE controls data = Inr data_processed"
  shows "otl_taxon env (t_ott_id result) 3600 False w1 =
           Some (Inr None, w1\<lparr>calls := Suc (calls w1), stderr := stderr w1 @ [m, ''skipping'']\<rparr>) \<and>
         resolve env sp w =
           Some (Inl AttributeError,
                 w1\<lparr>calls := Suc (calls w1), stderr := stderr w1 @ [m, ''skipping'']\<rparr>) \<and>
         process_data env (sp # species) controls data w =
           Some (Inl AttributeError,
                 w1\<lparr>calls := Suc (calls w1), stderr := stderr w1 @ [m, ''skipping'']\<rparr>)"
proof -
  have "otl_checkname env sp w =
      Some (Inl AttributeError,
            w1\<lparr>calls := Suc (calls w1), stderr := stderr w1 @ [m, ''skipping'']\<rparr>)"
    using otl_checkname_raises [OF tnrs matches taxonomy_OTT_client_error [OF post status message]] .
  then have "resolve env sp w =
      Some (Inl AttributeError,
            w1\<lparr>calls := Suc (calls w1), stderr := stderr w1 @ [m, ''skipping'']\<rparr>)"
    by (rule resolve_raises)
  then show ?thesis
    using otl_taxon_client_error [OF post status message, of 3600]
    by (simp add: process_data_def counts)
qed

theorem client_error_aborts_run_witness:
  "resolve example_env ''ghost'' start =
     Some (Inl AttributeError,
           \<lparr>calls = 2, stderr = [''unrecognized id'', ''skipping''], warned = [], slept = []\<rparr>) \<and>
   process_data example_env [''ghost'', ''bacillus''] [10, 10] [[20], [5]] start =
     Some (Inl AttributeError,
           \<lparr>calls = 2, stderr = [''unrecognized id'', ''skipping''], warned = [], slept = []\<rparr>)"
proof -
  have tnrs: "otl_tnrs example_env ''ghost'' False 600 start =
      Some (\<lparr>status_code = 200, json = Results [[example_taxon ''genus'' ''Ghost'' 1], []]\<rparr>,
            start\<lparr>calls := 1\<rparr>)"
    by code_simp
  have matches: "json \<lparr>status_code = 200, json = Results [[example_taxon ''genus'' ''Ghost'' 1], []]\<rparr> =
      Results ((example_taxon ''genus'' ''Ghost'' 1 # []) # [[]])"
    by simp
  have post: "post example_env (calls (start\<lparr>calls := 1\<rparr>))
      (Taxon_info_ott_id (t_ott_id (example_taxon ''genus'' ''Ghost'' 1)) True) =
      Returns \<lparr>status_code = 400, json = Message ''unrecognized id''\<rparr>"
    by code_simp
  have counts: "prune_and_normalize PRUNING_VALUE [10, 10] [[20], [5]] = Inr [[1], [0]]"
    by code_simp
  show ?thesis
    using client_error_aborts_run [OF tnrs matches post _ _ counts, of "''unrecognized id''" "[''bacillus'']"]
    by (simp add: start_def)
qed

text \<open>
  C5, amended. When the first match of the name has a rank that is neither species nor
  genus, and the detail lookup for it returned a lineage, \<open>otl_checkname\<close> gives the
  warning and returns \<open>None\<close>, which is not the empty dictionary of a name without
  matches. The loop treats it as it treats that dictionary: a label without a space gets
  the unresolved row, and a label with a space is cut at its last space and the name
  check is made again for the part before it.
\<close>

theorem rejected_rank_is_failure:
  assumes tnrs: "otl_tnrs env sp False 600 w = Some (res, w1)"
    and matches: "json res = Results ((result # ms) # rs)"
    and detail: "taxonomy_OTT env (t_ott_id result) w1 = Some (Inr ht, w2)"
    and rank: "t_rank result \<noteq> ''species''" "t_rank result \<noteq> ''genus''"
    and warned: "w3 = w2\<lparr>warned := warned w2 @ [sp @ '': found in ott, but not as genus or species'']\<rparr>"
  shows "otl_checkname env sp w = Some (Inr PyNone, w3) \<and>
         PyNone \<noteq> EmptyDict \<and>
         (CHR '' '' \<notin> set sp \<longrightarrow>
            resolve env sp w =
              Some (Inr [PyStr ''-'', PyStr ''-'', PyStr ''-'', PyStr ''-'', PyStr ''-'', PyStr ''-'',
                         PyStr sp], w3)) \<and>
         (CHR '' '' \<in> set sp \<longrightarrow>
            (\<forall>p t. rsplit1 sp = [p, t] \<longrightarrow>
               resolve env sp w =
                 (case otl_checkname env p w3 of
                    None \<Rightarrow> None
                  | Some (Inl e, w4) \<Rightarrow> Some (Inl e, w4)
                  | Some (Inr taxa1, w4) \<Rightarrow>
                      (case shorten_name env taxa1 [p, t] w4 of
                         None \<Rightarrow> None
                       | Some (Inl e, w5) \<Rightarrow> Some (Inl e, w5)
                       | Some (Inr (taxa', name), w5) \<Rightarrow>
                           Some (Inr (species_row taxa' name sp), w5)))))"
proof -
  have ck: "otl_checkname env sp w = Some (Inr PyNone, w3)"
    using otl_checkname_rejected [OF tnrs matches detail rank] warned by simp
  have none: "resolve env sp w =
      Some (Inr [PyStr ''-'', PyStr ''-'', PyStr ''-'', PyStr ''-'', PyStr ''-'', PyStr ''-'',
                 PyStr sp], w3)"
    if "CHR '' '' \<notin> set sp"
    using resolve_no_space [OF that ck] by (simp add: species_row_unresolved)
  have again: "resolve env sp w =
      (case otl_checkname env p w3 of
         None \<Rightarrow> None
       | Some (Inl e, w4) \<Rightarrow> Some (Inl e, w4)
       | Some (Inr taxa1, w4) \<Rightarrow>
           (case shorten_name env taxa1 [p, t] w4 of
              None \<Rightarrow> None
            | Some (Inl e, w5) \<Rightarrow> Some (Inl e, w5)
            | Some (Inr (taxa', name), w5) \<Rightarrow> Some (Inr (species_row taxa' name sp), w5)))"
    if sp: "CHR '' '' \<in> set sp" and cut: "rsplit1 sp = [p, t]" for p t
  proof -
    have "shorten_name env PyNone [sp] w3 =
        (case otl_checkname env p w3 of
           None \<Rightarrow> None
         | Some (Inl e, w4) \<Rightarrow> Some (Inl e, w4)
         | Some (Inr taxa1, w4) \<Rightarrow> shorten_name env taxa1 [p, t] w4)"
      by (subst shorten_name.simps) (simp add: sp cut)
    then show ?thesis
      by (simp add: resolve_def ck split: option.splits prod.splits sum.splits)
  qed
  show ?thesis using ck none again by blast
qed

theorem rejected_rank_is_failure_witness:
  "otl_checkname example_env ''bacillaceae'' start =
     Some (Inr PyNone,
           \<lparr>calls = 2, stderr = [],
              warned = [''bacillaceae: found in ott, but not as genus or species''],
              slept = []\<rparr>) \<and>
   resolve example_env ''bacillaceae'' start =
     Some (Inr [PyStr ''-'', PyStr ''-'', PyStr ''-'', PyStr ''-'', PyStr ''-'', PyStr ''-'',
                PyStr ''bacillaceae''],
           \<lparr>calls = 2, stderr = [],
              warned = [''bacillaceae: found in ott, but not as genus or species''],
              slept = []\<rparr>)"
proof -
  have tnrs: "otl_tnrs example_env ''bacillaceae'' False 600 start =
      Some (\<lparr>status_code = 200, json = Results [[example_taxon ''family'' ''Bacillaceae'' 5], []]\<rparr>,
            start\<lparr>calls := 1\<rparr>)"
    by code_simp
  have matches:
    "json \<lparr>status_code = 200, json = Results [[example_taxon ''family'' ''Bacillaceae'' 5], []]\<rparr> =
      Results ((example_taxon ''family'' ''Bacillaceae'' 5 # []) # [[]])"
    by simp
  have "(case taxonomy_OTT example_env (t_ott_id (example_taxon ''family'' ''Bacillaceae'' 5))
                (start\<lparr>calls := 1\<rparr>) of
           Some (Inr ht, w2) \<Rightarrow> w2 = start\<lparr>calls := 2\<rparr>
         | _ \<Rightarrow> False)"
    by code_simp
  then obtain ht where detail:
    "taxonomy_OTT example_env (t_ott_id (example_taxon ''family'' ''Bacillaceae'' 5))
       (start\<lparr>calls := 1\<rparr>) = Some (Inr ht, start\<lparr>calls := 2\<rparr>)"
    by (auto split: option.splits prod.splits sum.splits)
  have rank: "t_rank (example_taxon ''family'' ''Bacillaceae'' 5) \<noteq> ''species''"
    "t_rank (example_taxon ''family'' ''Bacillaceae'' 5) \<noteq> ''genus''"
    by (simp_all add: example_taxon_def)
  show ?thesis
    using rejected_rank_is_failure [OF tnrs matches detail rank refl] by (simp add: start_def)
qed

text \<open>
  C5 as stated fails: the name check of \<open>bacillus cereus group\<close> finds a species
  group, warns and returns \<open>None\<close>, and the loop goes on as after a name without
  matches: \<open>bacillus cereus\<close> is found as a species, and the row is the resolved one,
  not the unresolved one.
\<close>

theorem rejected_rank_counterexample:
  "otl_checkname example_env ''bacillus cereus group'' start =
     Some (Inr PyNone,
           \<lparr>calls = 2, stderr = [],
              warned = [''bacillus cereus group: found in ott, but not as genus or species''],
              slept = []\<rparr>) \<and>
   resolve example_env ''bacillus cereus group'' start =
     Some (Inr [PyStr ''Bacteria'', PyStr ''-'', PyStr ''-'', PyStr ''-'', PyStr ''Bacillales'',
                PyStr ''Bacillaceae'', PyStr ''Bacillus cereus group''],
           \<lparr>calls = 4, stderr = [],
              warned = [''bacillus cereus group: found in ott, but not as genus or species''],
              slept = []\<rparr>)"
proof -
  have "(case otl_checkname example_env ''bacillus cereus group'' start of
           Some (Inr PyNone, w1) \<Rightarrow>
             w1 = \<lparr>calls = 2, stderr = [],
                     warned = [''bacillus cereus group: found in ott, but not as genus or species''],
                     slept = []\<rparr>
         | _ \<Rightarrow> False)"
    by code_simp
  then have "otl_checkname example_env ''bacillus cereus group'' start =
     Some (Inr PyNone,
           \<lparr>calls = 2, stderr = [],
              warned = [''bacillus cereus group: found in ott, but not as genus or species''],
              slept = []\<rparr>)"
    by (auto split: option.splits prod.splits sum.splits checked.splits)
  moreover have "resolve example_env ''bacillus cereus group'' start =
     Some (Inr [PyStr ''Bacteria'', PyStr ''-'', PyStr ''-'', PyStr ''-'', PyStr ''Bacillales'',
                PyStr ''Bacillaceae'', PyStr ''Bacillus cereus group''],
           \<lparr>calls = 4, stderr = [],
              warned = [''bacillus cereus group: found in ott, but not as genus or species''],
              slept = []\<rparr>)"
    by code_simp
  ultimately show ?thesis by simp
qed



subsection \<open>The dictionary of \<open>taxonomy_OTT\<close>\<close>

lemma lineage_dict_snoc:
  "lineage_dict (lineage @ [g]) = (lineage_dict lineage)(''tax_'' @ t_rank g \<mapsto> PyStr (t_name g))"
  by (simp add: lineage_dict_def)

lemma lineage_dict_lookup:
  "lineage_dict lineage k =
     (if \<exists>g\<in>set lineage. ''tax_'' @ t_rank g = k
      then Some (PyStr (t_name (last (filter (\<lambda>g. ''tax_'' @ t_rank g = k) lineage))))
      else None)"
proof (induction lineage rule: rev_induct)
  case Nil
  then show ?case by (simp add: lineage_dict_def)
next
  case (snoc g lineage)
  then show ?case by (simp add: lineage_dict_snoc)
qed

lemma lineage_dict_genus:
  "lineage_dict lineage ''tax_genus'' =
     (if \<exists>g\<in>set lineage. t_rank g = ''genus''
      then Some (PyStr (t_name (last (filter (\<lambda>g. t_rank g = ''genus'') lineage))))
      else None)"
  using lineage_dict_lookup [of lineage "''tax_genus''"] by simp

lemma lineage_dict_cg [simp]: "lineage_dict lineage ''cg'' = None"
  using lineage_dict_lookup [of lineage "''cg''"] by simp

lemma lineage_dict_rank [simp]: "lineage_dict lineage ''rank'' = None"
  using lineage_dict_lookup [of lineage "''rank''"] by simp

lemma lineage_dict_cg_ott_id:
  "\<forall>g\<in>set lineage. t_rank g \<noteq> ''cg_ott_id'' \<Longrightarrow> lineage_dict lineage ''tax_cg_ott_id'' = None"
  using lineage_dict_lookup [of lineage "''tax_cg_ott_id''"] by simp

lemma update_ncbi_other:
  "update_ncbi key sources d = Inr d' \<Longrightarrow> k \<noteq> key \<Longrightarrow> d' k = d k"
  by (auto simp: update_ncbi_def split: sum.splits option.splits)

lemma add_species_other: "k \<noteq> ''tax_cs_ott_id'' \<Longrightarrow> add_species lineage d k = d k"
  by (simp add: add_species_def split: list.splits)

lemma filter_genus_Nil:
  "filter (\<lambda>g. t_rank g = ''genus'') lineage = [] \<longleftrightarrow> \<not> (\<exists>g\<in>set lineage. t_rank g = ''genus'')"
  by (auto simp: filter_empty_conv)

lemma add_genus_fields:
  assumes "add_genus t lineage d0 = Inr d'" and "d0 ''rank'' = Some (PyStr (t_rank t))"
  shows "d' ''cg'' =
      (if t_rank t \<in> {''species'', ''subspecies''} then
         (if filter (\<lambda>g. t_rank g = ''genus'') lineage = []
          then Some (PyStr (hd (split_ws (t_unique_name t))))
          else d0 ''tax_genus'')
       else d0 ''cg'')"
    and "t_rank t \<in> {''species'', ''subspecies''} \<Longrightarrow>
         filter (\<lambda>g. t_rank g = ''genus'') lineage = [] \<Longrightarrow>
         split_ws (t_unique_name t) \<noteq> []"
    and "d' ''tax_cg_ott_id'' =
      (if t_rank t \<in> {''species'', ''subspecies''} then
         (if filter (\<lambda>g. t_rank g = ''genus'') lineage = []
          then Some PyNaN
          else Some (PyInt (t_ott_id (hd (filter (\<lambda>g. t_rank g = ''genus'') lineage)))))
       else d0 ''tax_cg_ott_id'')"
    and "d' ''rank'' = d0 ''rank''"
proof -
  show "d' ''cg'' =
      (if t_rank t \<in> {''species'', ''subspecies''} then
         (if filter (\<lambda>g. t_rank g = ''genus'') lineage = []
          then Some (PyStr (hd (split_ws (t_unique_name t))))
          else d0 ''tax_genus'')
       else d0 ''cg'')"
    using assms
    by (auto simp: add_genus_def rank_in_def Let_def
        dest!: update_ncbi_other [where k = "''cg''"]
        split: if_splits list.splits sum.splits option.splits bool.splits)
  show "split_ws (t_unique_name t) \<noteq> []"
    if "t_rank t \<in> {''species'', ''subspecies''}"
      "filter (\<lambda>g. t_rank g = ''genus'') lineage = []"
    using assms that
    by (auto simp: add_genus_def rank_in_def Let_def
        split: if_splits list.splits sum.splits option.splits bool.splits)
  show "d' ''tax_cg_ott_id'' =
      (if t_rank t \<in> {''species'', ''subspecies''} then
         (if filter (\<lambda>g. t_rank g = ''genus'') lineage = []
          then Some PyNaN
          else Some (PyInt (t_ott_id (hd (filter (\<lambda>g. t_rank g = ''genus'') lineage)))))
       else d0 ''tax_cg_ott_id'')"
    using assms
    by (auto simp: add_genus_def rank_in_def Let_def
        dest!: update_ncbi_other [where k = "''tax_cg_ott_id''"]
        split: if_splits list.splits sum.splits option.splits bool.splits)
  show "d' ''rank'' = d0 ''rank''"
    using assms
    by (auto simp: add_genus_def rank_in_def Let_def
        dest!: update_ncbi_other [where k = "''rank''"]
        split: if_splits list.splits sum.splits option.splits bool.splits)
qed

text \<open>
  C9. In the dictionary \<open>taxonomy_OTT\<close> returns, \<open>cg\<close> is the first token of the
  unique name exactly in the case where the rank is species or subspecies and the lineage
  has no genus (and then the unique name has a token); with a genus in the lineage of a
  species or subspecies it is the name stored for the genus; for every other rank it is
  absent (genus, subgenus) or the empty string. With no genus in the lineage the key
  \<open>tax_cg_ott_id\<close> holds \<open>nan\<close> (species, subspecies) or is not set by the extractor.
\<close>

theorem core_genus_fallback:
  assumes "taxonomy_dict ott_id (Taxon_info t lineage) = Inr d"
  shows "d ''cg'' =
      (if t_rank t \<in> {''species'', ''subspecies''} then
         (if \<exists>g\<in>set lineage. t_rank g = ''genus''
          then Some (PyStr (t_name (last (filter (\<lambda>g. t_rank g = ''genus'') lineage))))
          else Some (PyStr (hd (split_ws (t_unique_name t)))))
       else if t_rank t \<in> {''genus'', ''subgenus''} then None
       else Some (PyStr [])) \<and>
     (t_rank t \<in> {''species'', ''subspecies''} \<and> \<not> (\<exists>g\<in>set lineage. t_rank g = ''genus'') \<longrightarrow>
        split_ws (t_unique_name t) \<noteq> []) \<and>
     d ''tax_cg_ott_id'' =
      (if t_rank t \<in> {''species'', ''subspecies''} then
         (if \<exists>g\<in>set lineage. t_rank g = ''genus''
          then Some (PyInt (t_ott_id (hd (filter (\<lambda>g. t_rank g = ''genus'') lineage))))
          else Some PyNaN)
       else lineage_dict lineage ''tax_cg_ott_id'') \<and>
     ((\<forall>g\<in>set lineage. t_rank g \<noteq> ''cg_ott_id'') \<longrightarrow>
        lineage_dict lineage ''tax_cg_ott_id'' = None)"
proof -
  define d6 where "d6 = (((((lineage_dict lineage)(''tax_higher_source'' \<mapsto> PyStr ''OTT''))
      (''rank'' \<mapsto> PyStr (t_rank t)))(''tax_no rank'' := None))(''tax_ott_id'' \<mapsto> PyInt ott_id))
      (''tax_ott_accepted_name'' \<mapsto> PyStr (t_name t))"
  obtain d7 d8 where d7: "update_ncbi ''tax_ncbi_id'' (t_tax_sources t) d6 = Inr d7"
    and d8: "add_genus t lineage d7 = Inr d8"
    and d: "(case rank_in ((add_species lineage d8)(''tax_species'' := None))
                    [''species'', ''subspecies'', ''genus'', ''subgenus''] of
               Inl e \<Rightarrow> Inl e
             | Inr True \<Rightarrow> Inr ((add_species lineage d8)(''tax_species'' := None))
             | Inr False \<Rightarrow> Inr (((add_species lineage d8)(''tax_species'' := None))
                                    (''cg'' \<mapsto> PyStr []))) = Inr d"
    using assms by (auto simp: taxonomy_dict_def Let_def d6_def split: sum.splits)
  have r6: "d6 ''rank'' = Some (PyStr (t_rank t))"
    and g6: "d6 ''tax_genus'' = lineage_dict lineage ''tax_genus''"
    and c6: "d6 ''cg'' = None"
    and i6: "d6 ''tax_cg_ott_id'' = lineage_dict lineage ''tax_cg_ott_id''"
    by (simp_all add: d6_def)
  have r7: "d7 ''rank'' = Some (PyStr (t_rank t))"
    and g7: "d7 ''tax_genus'' = lineage_dict lineage ''tax_genus''"
    and c7: "d7 ''cg'' = None"
    and i7: "d7 ''tax_cg_ott_id'' = lineage_dict lineage ''tax_cg_ott_id''"
    using update_ncbi_other [OF d7] r6 g6 c6 i6 by simp_all
  note f8 = add_genus_fields [OF d8 r7]
  define d10 where "d10 = (add_species lineage d8)(''tax_species'' := None)"
  have r10: "d10 ''rank'' = Some (PyStr (t_rank t))"
    and c10: "d10 ''cg'' = d8 ''cg''"
    and i10: "d10 ''tax_cg_ott_id'' = d8 ''tax_cg_ott_id''"
    using f8(4) r7 by (simp_all add: d10_def add_species_other)
  have dd: "d = (if t_rank t \<in> {''species'', ''subspecies'', ''genus'', ''subgenus''} then d10
                 else d10(''cg'' \<mapsto> PyStr []))"
    using d r10 unfolding d10_def [symmetric] by (auto simp: rank_in_def split: if_splits)
  have cg: "d ''cg'' =
      (if t_rank t \<in> {''species'', ''subspecies''} then
         (if \<exists>g\<in>set lineage. t_rank g = ''genus''
          then Some (PyStr (t_name (last (filter (\<lambda>g. t_rank g = ''genus'') lineage))))
          else Some (PyStr (hd (split_ws (t_unique_name t)))))
       else if t_rank t \<in> {''genus'', ''subgenus''} then None
       else Some (PyStr []))"
    using f8(1) c10 c7 g7 by (auto simp: dd lineage_dict_genus filter_genus_Nil)
  have tok: "t_rank t \<in> {''species'', ''subspecies''} \<and> \<not> (\<exists>g\<in>set lineage. t_rank g = ''genus'') \<longrightarrow>
        split_ws (t_unique_name t) \<noteq> []"
    using f8(2) by (simp add: filter_genus_Nil)
  have cid: "d ''tax_cg_ott_id'' =
      (if t_rank t \<in> {''species'', ''subspecies''} then
         (if \<exists>g\<in>set lineage. t_rank g = ''genus''
          then Some (PyInt (t_ott_id (hd (filter (\<lambda>g. t_rank g = ''genus'') lineage))))
          else Some PyNaN)
       else lineage_dict lineage ''tax_cg_ott_id'')"
    using f8(3) i10 i7 by (auto simp: dd filter_genus_Nil)
  show ?thesis using cg tok cid lineage_dict_cg_ott_id [of lineage] by blast
qed

theorem core_genus_fallback_witness:
  "\<exists>d. taxonomy_dict 20 (Taxon_info (example_taxon ''species'' ''Bacillus cereus'' 20) example_lineage)
          = Inr d \<and>
       d ''cg'' = Some (PyStr ''Bacillus'') \<and> d ''tax_cg_ott_id'' = Some PyNaN"
proof -
  have "(case taxonomy_dict 20
                (Taxon_info (example_taxon ''species'' ''Bacillus cereus'' 20) example_lineage) of
           Inr d \<Rightarrow> True
         | Inl e \<Rightarrow> False)"
    by code_simp
  then obtain d where d:
    "taxonomy_dict 20 (Taxon_info (example_taxon ''species'' ''Bacillus cereus'' 20) example_lineage)
       = Inr d"
    by (auto split: sum.splits)
  have "split_ws ''Bacillus cereus'' = [''Bacillus'', ''cereus'']"
    by code_simp
  then show ?thesis
    using core_genus_fallback [OF d] d
    by (simp add: example_taxon_def example_lineage_def)
qed

section \<open>Claims about the shortening loop\<close>

subsection \<open>Splitting and joining at spaces\<close>

lemma rsplit1_space:
  assumes "CHR '' '' \<in> set s"
  obtains p t where "rsplit1 s = [p, t]" and "s = p @ CHR '' '' # t" and "CHR '' '' \<notin> set t"
proof -
  let ?P = "\<lambda>c. c \<noteq> CHR '' ''"
  let ?t = "rev (takeWhile ?P (rev s))"
  let ?p = "rev (tl (dropWhile ?P (rev s)))"
  have ne: "dropWhile ?P (rev s) \<noteq> []"
    using assms by (simp add: dropWhile_eq_Nil_conv)
  then have "hd (dropWhile ?P (rev s)) = CHR '' ''"
    using hd_dropWhile [of ?P "rev s"] by simp
  then have dw: "dropWhile ?P (rev s) = CHR '' '' # tl (dropWhile ?P (rev s))"
    using ne by (cases "dropWhile ?P (rev s)") simp_all
  have "rev s = takeWhile ?P (rev s) @ dropWhile ?P (rev s)" by simp
  then have "rev s = takeWhile ?P (rev s) @ CHR '' '' # tl (dropWhile ?P (rev s))"
    using dw by simp
  then have "rev (rev s) = rev (takeWhile ?P (rev s) @ CHR '' '' # tl (dropWhile ?P (rev s)))"
    by (rule arg_cong)
  then have s: "s = ?p @ CHR '' '' # ?t" by simp
  have "CHR '' '' \<notin> set ?t"
    using set_takeWhileD [of "CHR '' ''" ?P "rev s"] by auto
  moreover have "rsplit1 s = [?p, ?t]" using assms by (simp add: rsplit1_def)
  ultimately show ?thesis using s that by blast
qed

lemma join_sp_Cons: "ys \<noteq> [] \<Longrightarrow> join_sp (x # ys) = x @ CHR '' '' # join_sp ys"
  by (cases ys) simp_all

lemma join_sp_snoc: "xs \<noteq> [] \<Longrightarrow> join_sp (xs @ [t]) = join_sp xs @ CHR '' '' # t"
proof (induction xs rule: join_sp.induct)
  case 1
  then show ?case by simp
next
  case (2 x)
  then show ?case by simp
next
  case (3 x y ys)
  then show ?case by simp
qed

lemma split_on_not_Nil [simp]: "split_on c s \<noteq> []"
  by (induction s) (auto split: list.splits)

lemma split_on_no_sep: "c \<notin> set s \<Longrightarrow> split_on c s = [s]"
  by (induction s) auto

lemma split_on_append_sep: "split_on c (xs @ c # ys) = split_on c xs @ split_on c ys"
proof (induction xs)
  case Nil
  then show ?case by (cases "split_on c ys") simp_all
next
  case (Cons x xs)
  then show ?case by (cases "split_on c xs") (auto split: list.splits)
qed

lemma split_on_join_sp:
  "toks \<noteq> [] \<Longrightarrow> \<forall>t\<in>set toks. CHR '' '' \<notin> set t \<Longrightarrow> split_on CHR '' '' (join_sp toks) = toks"
proof (induction toks rule: join_sp.induct)
  case 1
  then show ?case by simp
next
  case (2 x)
  then show ?case by (simp add: split_on_no_sep)
next
  case (3 x y ys)
  then show ?case by (simp add: split_on_append_sep split_on_no_sep)
qed

lemma length_split_on: "length (split_on c s) = Suc (count_list s c)"
proof (induction s)
  case Nil
  then show ?case by simp
next
  case (Cons x s)
  then show ?case by (cases "split_on c s") auto
qed

subsection \<open>What the loop returns\<close>

lemma shorten_name_result:
  assumes "shorten_name env taxa name w = Some (Inr (taxa', name'), w')" and "name \<noteq> []"
  shows "\<exists>q toks. name' = q # toks @ tl name \<and> hd name = join_sp (q # toks) \<and>
           (\<forall>t\<in>set toks. CHR '' '' \<notin> set t) \<and>
           (toks = [] \<longrightarrow> taxa' = taxa \<and> w' = w) \<and>
           (toks \<noteq> [] \<longrightarrow> (\<exists>w0. otl_checkname env q w0 = Some (Inr taxa', w'))) \<and>
           (\<not> truthy taxa' \<longrightarrow> CHR '' '' \<notin> set q)"
  using assms
proof (induction env taxa name w rule: shorten_name.induct)
  case (1 env taxa name w)
  obtain name0 rest where name: "name = name0 # rest"
    using "1.prems"(2) by (cases name) auto
  show ?case
  proof (cases "\<not> truthy taxa \<and> CHR '' '' \<in> set name0")
    case False
    then have "shorten_name env taxa name w = Some (Inr (taxa, name), w)"
      by (subst shorten_name.simps) (auto simp: name)
    then have "taxa' = taxa" "name' = name" "w' = w" using "1.prems"(1) by simp_all
    then have "name' = name0 # [] @ tl name \<and> hd name = join_sp (name0 # []) \<and>
           (\<forall>t\<in>set []. CHR '' '' \<notin> set t) \<and>
           ([] = [] \<longrightarrow> taxa' = taxa \<and> w' = w) \<and>
           ([] \<noteq> [] \<longrightarrow> (\<exists>w0. otl_checkname env name0 w0 = Some (Inr taxa', w'))) \<and>
           (\<not> truthy taxa' \<longrightarrow> CHR '' '' \<notin> set name0)"
      using False by (auto simp: name)
    then show ?thesis by blast
  next
    case True
    then have nt: "\<not> truthy taxa" and sp: "CHR '' '' \<in> set name0" by simp_all
    obtain p t where rs: "rsplit1 name0 = [p, t]" and n0: "name0 = p @ CHR '' '' # t"
      and t: "CHR '' '' \<notin> set t"
      using rsplit1_space [OF sp] by blast
    have cons: "rsplit1 name0 @ rest = p # t # rest" by (simp add: rs)
    have unfold: "shorten_name env taxa name w =
        (case otl_checkname env p w of
           None \<Rightarrow> None
         | Some (Inl e, w1) \<Rightarrow> Some (Inl e, w1)
         | Some (Inr taxa1, w1) \<Rightarrow> shorten_name env taxa1 (p # t # rest) w1)"
      by (subst shorten_name.simps) (simp add: name nt sp rs)
    then obtain taxa1 w1 where ck: "otl_checkname env p w = Some (Inr taxa1, w1)"
      and rec: "shorten_name env taxa1 (p # t # rest) w1 = Some (Inr (taxa', name'), w')"
      using "1.prems"(1) by (auto split: option.splits prod.splits sum.splits)
    have "\<exists>q toks. name' = q # toks @ tl (p # t # rest) \<and> hd (p # t # rest) = join_sp (q # toks) \<and>
           (\<forall>t\<in>set toks. CHR '' '' \<notin> set t) \<and>
           (toks = [] \<longrightarrow> taxa' = taxa1 \<and> w' = w1) \<and>
           (toks \<noteq> [] \<longrightarrow> (\<exists>w0. otl_checkname env q w0 = Some (Inr taxa', w'))) \<and>
           (\<not> truthy taxa' \<longrightarrow> CHR '' '' \<notin> set q)"
      using "1.IH" [OF nt name sp cons ck refl refl rec] by simp
    then obtain q toks where IH: "name' = q # toks @ t # rest" "p = join_sp (q # toks)"
      "\<forall>t\<in>set toks. CHR '' '' \<notin> set t" "toks = [] \<longrightarrow> taxa' = taxa1 \<and> w' = w1"
      "toks \<noteq> [] \<longrightarrow> (\<exists>w0. otl_checkname env q w0 = Some (Inr taxa', w'))"
      "\<not> truthy taxa' \<longrightarrow> CHR '' '' \<notin> set q"
      by auto
    have a: "name' = q # (toks @ [t]) @ tl name" using IH(1) by (simp add: name)
    have "join_sp ((q # toks) @ [t]) = join_sp (q # toks) @ CHR '' '' # t"
      by (rule join_sp_snoc) simp
    then have b: "hd name = join_sp (q # (toks @ [t]))" using IH(2) n0 by (simp add: name)
    have c: "\<forall>u\<in>set (toks @ [t]). CHR '' '' \<notin> set u" using IH(3) t by simp
    have d: "\<exists>w0. otl_checkname env q w0 = Some (Inr taxa', w')"
    proof (cases "toks = []")
      case True
      then show ?thesis using IH(2,4) ck by auto
    next
      case False
      then show ?thesis using IH(5) by simp
    qed
    have "name' = q # (toks @ [t]) @ tl name \<and> hd name = join_sp (q # (toks @ [t])) \<and>
           (\<forall>u\<in>set (toks @ [t]). CHR '' '' \<notin> set u) \<and>
           (toks @ [t] = [] \<longrightarrow> taxa' = taxa \<and> w' = w) \<and>
           (toks @ [t] \<noteq> [] \<longrightarrow> (\<exists>w0. otl_checkname env q w0 = Some (Inr taxa', w'))) \<and>
           (\<not> truthy taxa' \<longrightarrow> CHR '' '' \<notin> set q)"
      using a b c d IH(6) by simp
    then show ?thesis by blast
  qed
qed

text \<open>
  C7. When the loop has stripped tokens and ended on an accepted match for the remaining
  name \<open>q\<close>, the last field of the row is the name of that match followed by a space and
  the stripped tokens joined by spaces; the label is \<open>q\<close>, a space and those joined
  tokens, and the tokens are the last space-separated pieces of the label in their
  order.
\<close>

theorem resolved_name_keeps_suffix:
  assumes ck: "otl_checkname env sp w = Some (Inr taxa0, w1)"
    and loop: "shorten_name env taxa0 [sp] w1 = Some (Inr (OutDict d, q # toks), w2)"
    and stripped: "toks \<noteq> []"
  shows "\<exists>row. resolve env sp w = Some (Inr row, w2) \<and> length row = 7 \<and>
           row ! 6 = PyStr (current_name d @ '' '' @ join_sp toks) \<and>
           sp = q @ '' '' @ join_sp toks \<and>
           split_on CHR '' '' sp = split_on CHR '' '' q @ toks \<and>
           (\<exists>w0 res w0' result ms rs.
               otl_tnrs env q False 600 w0 = Some (res, w0') \<and>
               json res = Results ((result # ms) # rs) \<and>
               current_name d = t_name result)"
proof -
  obtain q' toks' where r: "q # toks = q' # toks' @ tl [sp]" "hd [sp] = join_sp (q' # toks')"
      "\<forall>t\<in>set toks'. CHR '' '' \<notin> set t"
      "toks' \<noteq> [] \<longrightarrow> (\<exists>w0. otl_checkname env q' w0 = Some (Inr (OutDict d), w2))"
    using shorten_name_result [OF loop] by auto
  then have eq: "q' = q" "toks' = toks" by simp_all
  have sp: "sp = q @ CHR '' '' # join_sp toks"
    using r(2) stripped by (simp add: eq join_sp_Cons)
  have toks: "split_on CHR '' '' (join_sp toks) = toks"
    using split_on_join_sp [OF stripped] r(3) by (simp add: eq)
  have split: "split_on CHR '' '' sp = split_on CHR '' '' q @ toks"
    by (simp add: sp split_on_append_sep toks)
  obtain w0 where "otl_checkname env q w0 = Some (Inr (OutDict d), w2)"
    using r(4) stripped by (auto simp: eq)
  then have match: "\<exists>w0 res w0' result ms rs.
               otl_tnrs env q False 600 w0 = Some (res, w0') \<and>
               json res = Results ((result # ms) # rs) \<and>
               current_name d = t_name result"
    using otl_checkname_accepted by blast
  have res: "resolve env sp w = Some (Inr (species_row (OutDict d) (q # toks) sp), w2)"
    by (simp add: resolve_def ck loop)
  have last: "species_row (OutDict d) (q # toks) sp ! 6 =
      PyStr (current_name d @ '' '' @ join_sp toks)"
    using stripped by (simp add: species_row_def nth_append)
  show ?thesis
    using res last sp split match length_species_row [of "OutDict d" "q # toks" sp]
    by auto
qed

theorem resolved_name_keeps_suffix_witness:
  "\<exists>row. resolve example_env ''bacillus xyz strainx'' start =
            Some (Inr row, \<lparr>calls = 4, stderr = [], warned = [], slept = []\<rparr>) \<and>
         row ! 6 = PyStr ''Bacillus xyz strainx''"
proof -
  have "(case otl_checkname example_env ''bacillus xyz strainx'' start of
           Some (Inr EmptyDict, w1) \<Rightarrow> w1 = start\<lparr>calls := 1\<rparr>
         | _ \<Rightarrow> False)"
    by code_simp
  then have ck: "otl_checkname example_env ''bacillus xyz strainx'' start =
      Some (Inr EmptyDict, start\<lparr>calls := 1\<rparr>)"
    by (auto split: option.splits prod.splits sum.splits checked.splits)
  define out where
    "out = shorten_name example_env EmptyDict [''bacillus xyz strainx''] (start\<lparr>calls := 1\<rparr>)"
  have a: "(case out of
              Some (Inr (OutDict d, name), w2) \<Rightarrow>
                name = [''bacillus'', ''xyz'', ''strainx''] \<and> current_name d = ''Bacillus'' \<and>
                w2 = \<lparr>calls = 4, stderr = [], warned = [], slept = []\<rparr>
            | _ \<Rightarrow> False)"
    unfolding out_def by code_simp
  obtain x where x: "out = Some x" using a by (cases out) auto
  obtain r w2 where r: "x = (r, w2)" by (cases x)
  obtain y where y: "r = Inr y" using a x r by (cases r) auto
  obtain taxa name where n: "y = (taxa, name)" by (cases y)
  obtain d where d: "taxa = OutDict d" using a x r y n by (cases taxa) auto
  have vals: "name = ''bacillus'' # [''xyz'', ''strainx'']" "current_name d = ''Bacillus''"
    "w2 = \<lparr>calls = 4, stderr = [], warned = [], slept = []\<rparr>"
    using a x r y n d by simp_all
  have loop: "shorten_name example_env EmptyDict [''bacillus xyz strainx''] (start\<lparr>calls := 1\<rparr>) =
      Some (Inr (OutDict d, ''bacillus'' # [''xyz'', ''strainx'']),
            \<lparr>calls = 4, stderr = [], warned = [], slept = []\<rparr>)"
    using x r y n d vals by (simp add: out_def)
  obtain row where row:
    "resolve example_env ''bacillus xyz strainx'' start =
       Some (Inr row, \<lparr>calls = 4, stderr = [], warned = [], slept = []\<rparr>)"
    "row ! 6 = PyStr (current_name d @ '' '' @ join_sp [''xyz'', ''strainx''])"
    using resolved_name_keeps_suffix [OF ck loop] by blast
  have "row ! 6 = PyStr ''Bacillus xyz strainx''"
    using row(2) vals(2) by simp
  then show ?thesis using row(1) by blast
qed

subsection \<open>Termination of the loop\<close>

lemma count_list_append_sep:
  "count_list (p @ c # t) c = Suc (count_list p c + count_list t c)"
  by (induction p) simp_all

lemma shorten_name_returns:
  "\<forall>q w0. otl_checkname env q w0 \<noteq> None \<Longrightarrow> name \<noteq> [] \<Longrightarrow>
     \<exists>r k. shorten_name env taxa name w = Some r \<and> loop_iterations env taxa name w = Some k \<and>
        k \<le> count_list (hd name) CHR '' '' \<and>
        (\<forall>taxa' name' w'. r = (Inr (taxa', name'), w') \<longrightarrow> length name' = length name + k)"
proof (induction env taxa name w rule: shorten_name.induct)
  case (1 env taxa name w)
  note total = "1.prems"(1)
  obtain name0 rest where name: "name = name0 # rest"
    using "1.prems"(2) by (cases name) auto
  show ?case
  proof (cases "\<not> truthy taxa \<and> CHR '' '' \<in> set name0")
    case False
    then have "shorten_name env taxa name w = Some (Inr (taxa, name), w)"
      by (subst shorten_name.simps) (auto simp: name)
    moreover have "loop_iterations env taxa name w = Some 0"
      using False by (subst loop_iterations.simps) (auto simp: name)
    ultimately show ?thesis by simp
  next
    case True
    then have nt: "\<not> truthy taxa" and sp: "CHR '' '' \<in> set name0" by simp_all
    obtain p t where rs: "rsplit1 name0 = [p, t]" and n0: "name0 = p @ CHR '' '' # t"
      using rsplit1_space [OF sp] by blast
    have cons: "rsplit1 name0 @ rest = p # t # rest" by (simp add: rs)
    have count: "Suc (count_list p CHR '' '') \<le> count_list name0 CHR '' ''"
      by (simp add: n0 count_list_append_sep)
    have unfold: "shorten_name env taxa name w =
        (case otl_checkname env p w of
           None \<Rightarrow> None
         | Some (Inl e, w1) \<Rightarrow> Some (Inl e, w1)
         | Some (Inr taxa1, w1) \<Rightarrow> shorten_name env taxa1 (p # t # rest) w1)"
      by (subst shorten_name.simps) (simp add: name nt sp rs)
    have unfold': "loop_iterations env taxa name w =
        (case otl_checkname env p w of
           None \<Rightarrow> None
         | Some (Inl e, w1) \<Rightarrow> Some 1
         | Some (Inr taxa1, w1) \<Rightarrow> map_option Suc (loop_iterations env taxa1 (p # t # rest) w1))"
      by (subst loop_iterations.simps) (simp add: name nt sp rs)
    have "otl_checkname env p w \<noteq> None" using total by blast
    then obtain y where "otl_checkname env p w = Some y" by blast
    then obtain x w1 where ck: "otl_checkname env p w = Some (x, w1)" by (cases y) simp
    show ?thesis
    proof (cases x)
      case (Inl e)
      then show ?thesis using unfold unfold' ck count by (simp add: name)
    next
      case (Inr taxa1)
      have "\<exists>r k. shorten_name env taxa1 (p # t # rest) w1 = Some r \<and>
          loop_iterations env taxa1 (p # t # rest) w1 = Some k \<and>
          k \<le> count_list (hd (p # t # rest)) CHR '' '' \<and>
          (\<forall>taxa' name' w'. r = (Inr (taxa', name'), w') \<longrightarrow>
             length name' = length (p # t # rest) + k)"
        using "1.IH" [OF nt name sp cons ck [unfolded Inr] refl refl] total by simp
      then obtain r k where IH: "shorten_name env taxa1 (p # t # rest) w1 = Some r"
        "loop_iterations env taxa1 (p # t # rest) w1 = Some k"
        "k \<le> count_list p CHR '' ''"
        "\<forall>taxa' name' w'. r = (Inr (taxa', name'), w') \<longrightarrow> length name' = length (p # t # rest) + k"
        by auto
      have "shorten_name env taxa name w = Some r"
        using unfold ck Inr IH(1) by simp
      moreover have "loop_iterations env taxa name w = Some (Suc k)"
        using unfold' ck Inr IH(2) by simp
      moreover have "Suc k \<le> count_list (hd name) CHR '' ''"
        using IH(3) count by (simp add: name)
      moreover have "\<forall>taxa' name' w'. r = (Inr (taxa', name'), w') \<longrightarrow>
          length name' = length name + Suc k"
        using IH(4) by (simp add: name)
      ultimately show ?thesis by blast
    qed
  qed
qed

text \<open>
  C10, amended. When every name check returns (with a value or an exception), the loop
  for a label returns, and its body has run at most once for each space character of the
  label: fewer times than the label has pieces between single spaces, the empty pieces
  between two spaces in a row counted. A loop that ends without an exception has run once
  for each name it added in front of the label.
\<close>

theorem shortening_loop_terminates:
  assumes "\<forall>q w0. otl_checkname env q w0 \<noteq> None"
  shows "\<exists>r k. shorten_name env taxa [sp] w = Some r \<and>
           loop_iterations env taxa [sp] w = Some k \<and>
           k \<le> count_list sp CHR '' '' \<and>
           k < length (split_on CHR '' '' sp) \<and>
           (\<forall>taxa' name' w'. r = (Inr (taxa', name'), w') \<longrightarrow> length name' = Suc k) \<and>
           (\<exists>r'. resolve env sp w0 = Some r')"
proof -
  obtain r k where a: "shorten_name env taxa [sp] w = Some r"
    "loop_iterations env taxa [sp] w = Some k" "k \<le> count_list sp CHR '' ''"
    "\<forall>taxa' name' w'. r = (Inr (taxa', name'), w') \<longrightarrow> length name' = Suc k"
    using shorten_name_returns [OF assms, of "[sp]" taxa w] by auto
  have b: "k < length (split_on CHR '' '' sp)"
    using a(3) by (simp add: length_split_on)
  have "otl_checkname env sp w0 \<noteq> None" using assms by blast
  then obtain y where "otl_checkname env sp w0 = Some y" by blast
  then obtain x w1 where ck: "otl_checkname env sp w0 = Some (x, w1)" by (cases y) simp
  have "\<exists>r'. resolve env sp w0 = Some r'"
  proof (cases x)
    case (Inl e)
    then show ?thesis using ck by (simp add: resolve_def)
  next
    case (Inr taxa0)
    obtain r0 where "shorten_name env taxa0 [sp] w1 = Some r0"
      using shorten_name_returns [OF assms, of "[sp]" taxa0 w1] by auto
    then show ?thesis
      using ck Inr by (cases r0) (auto simp: resolve_def split: sum.splits)
  qed
  then show ?thesis using a b by blast
qed

lemma example_tnrs_returns:
  "\<exists>res. otl_tnrs example_env q a wait_time w0 = Some (res, w0\<lparr>calls := Suc (calls w0)\<rparr>)"
  by (subst otl_tnrs.simps) (simp add: example_env_def example_post_def)

lemma example_taxon_returns: "\<exists>r. otl_taxon example_env i wait_time False w0 = Some r"
  by (subst otl_taxon.simps) (simp add: example_env_def example_post_def)

lemma example_taxonomy_returns: "\<exists>r. taxonomy_OTT example_env i w0 = Some r"
proof -
  obtain r where "otl_taxon example_env i 3600 False w0 = Some r"
    using example_taxon_returns by blast
  then show ?thesis
    by (cases r) (auto simp: taxonomy_OTT_def split: sum.splits option.splits)
qed

lemma example_checkname_returns: "otl_checkname example_env q w0 \<noteq> None"
proof -
  obtain res where t: "otl_tnrs example_env q False 600 w0 = Some (res, w0\<lparr>calls := Suc (calls w0)\<rparr>)"
    using example_tnrs_returns by blast
  show ?thesis
  proof (cases "json res")
    case (Results results)
    show ?thesis
    proof (cases results)
      case Nil
      then show ?thesis by (simp add: otl_checkname_def t Results)
    next
      case (Cons matches rs)
      show ?thesis
      proof (cases matches)
        case Nil
        then show ?thesis by (simp add: otl_checkname_def t Results Cons)
      next
        case (Cons result ms)
        obtain r where "taxonomy_OTT example_env (t_ott_id result) (w0\<lparr>calls := Suc (calls w0)\<rparr>) = Some r"
          using example_taxonomy_returns by blast
        then show ?thesis
          by (cases r) (auto simp: otl_checkname_def t Results \<open>results = matches # rs\<close> Cons
              split: sum.splits)
      qed
    qed
  next
    case (Taxon_info x21 x22)
    then show ?thesis by (simp add: otl_checkname_def t)
  next
    case (Message x3)
    then show ?thesis by (simp add: otl_checkname_def t)
  next
    case Other_body
    then show ?thesis by (simp add: otl_checkname_def t)
  qed
qed

theorem shortening_loop_terminates_witness:
  "(\<forall>q w0. otl_checkname example_env q w0 \<noteq> None) \<and>
   loop_iterations example_env EmptyDict [''bacillus xyz strainx''] (start\<lparr>calls := 1\<rparr>) = Some 2 \<and>
   (2 :: nat) < length (split_on CHR '' '' ''bacillus xyz strainx'')"
proof -
  have total: "\<forall>q w0. otl_checkname example_env q w0 \<noteq> None"
    using example_checkname_returns by blast
  have its: "loop_iterations example_env EmptyDict [''bacillus xyz strainx''] (start\<lparr>calls := 1\<rparr>)
      = Some 2"
    by code_simp
  show ?thesis
    using shortening_loop_terminates [OF total, of EmptyDict "''bacillus xyz strainx''"
        "start\<lparr>calls := 1\<rparr>" start] its total
    by simp
qed

text \<open>
  C10 as stated fails: the label with three spaces between \<open>a\<close> and \<open>b\<close> has two
  tokens between whitespace, and the body of the loop runs three times for it, once for
  each space.
\<close>

theorem shortening_loop_counterexample:
  "loop_iterations example_env EmptyDict [''a   b''] (start\<lparr>calls := 1\<rparr>) = Some 3 \<and>
   length (split_ws ''a   b'') = 2"
  by code_simp

section \<open>Claims about the rows written\<close>

subsection \<open>Reading\<close>

lemma collect_map_Inr:
  "collect (map f xs) = Inr ys \<Longrightarrow>
   length ys = length xs \<and> (\<forall>i<length xs. f (xs ! i) = Inr (ys ! i))"
proof (induction xs arbitrary: ys)
  case Nil
  then show ?case by simp
next
  case (Cons x xs)
  from Cons.prems obtain v vs where v: "f x = Inr v" and vs: "collect (map f xs) = Inr vs"
    and ys: "ys = v # vs"
    by (auto split: sum.splits)
  have IH: "length vs = length xs \<and> (\<forall>i<length xs. f (xs ! i) = Inr (vs ! i))"
    using Cons.IH [OF vs] .
  show ?case
  proof (intro conjI allI impI)
    show "length ys = length (x # xs)" using IH ys by simp
  next
    fix i assume "i < length (x # xs)"
    then show "f ((x # xs) ! i) = Inr (ys ! i)"
      using IH v ys by (cases i) simp_all
  qed
qed

lemma index_of_Some: "index_of x xs = Some i \<Longrightarrow> i < length xs \<and> xs ! i = x"
  by (induction xs arbitrary: i) (auto split: if_splits option.splits)

lemma length_filter_neq_upt:
  assumes "0 < c" and "c < n"
  shows "length (filter (\<lambda>k. k \<noteq> c) [1..<n]) = n - 2"
proof -
  have "length (filter (\<lambda>k. k \<noteq> c) [1..<n]) = card ({k. k \<noteq> c} \<inter> set [1..<n])"
    by (rule distinct_length_filter) simp
  also have "{k. k \<noteq> c} \<inter> set [1..<n] = {1..<n} - {c}" by auto
  also have "card ({1..<n} - {c}) = card {1..<n} - 1"
    using assms by (subst card_Diff_singleton) simp_all
  finally show ?thesis by simp
qed

lemma data_row_Inr:
  assumes "data_row int_of c row = Inr d"
  shows "length d = length (filter (\<lambda>k. k \<noteq> c) [1..<length row])"
    and "k < length d \<Longrightarrow> int_of (row ! (filter (\<lambda>k. k \<noteq> c) [1..<length row] ! k)) = Inr (d ! k)"
  using collect_map_Inr [of "\<lambda>i. int_of (row ! i)" "filter (\<lambda>k. k \<noteq> c) [1..<length row]" d] assms
  by (simp_all add: data_row_def)

lemma zip_star_Nil [simp]: "zip_star [] = []"
  by (simp add: zip_star_def)

lemma read_data_Inr:
  assumes read: "read_data int_of fs file = Inr (header', species, controls, data)"
    and input: "fs file = Some (header # csvrows)"
    and rect: "\<forall>row\<in>set csvrows. length row = length header"
  shows "header' = header \<and> csvrows \<noteq> [] \<and>
     (\<exists>c. index_of ''control'' (map lower header) = Some c \<and> 0 < c \<and> c < length header \<and>
        length species = length csvrows \<and>
        length controls = length csvrows \<and> length data = length csvrows \<and>
        (\<forall>i<length csvrows. int_of (csvrows ! i ! c) = Inr (controls ! i) \<and>
           data_row int_of c (csvrows ! i) = Inr (data ! i)))"
proof -
  from read obtain col0 c ccol where
    h0: "getitem (map lower header) 0 = Inr ''otu''"
    and c0: "getitem (zip_star csvrows) 0 = Inr col0"
    and c: "index_of ''control'' (map lower header) = Some c"
    and cc: "getitem (zip_star csvrows) c = Inr ccol"
    and ctl: "collect (map int_of ccol) = Inr controls"
    and dat: "collect (map (data_row int_of c) csvrows) = Inr data"
    and hd: "header' = header" and sp: "species = map lower col0"
    unfolding read_data_def input
    by (auto split: sum.splits option.splits if_splits)
  have ne: "csvrows \<noteq> []"
    using c0 by (auto simp: getitem_def split: if_splits)
  have cl: "c < length header" using index_of_Some [OF c] by simp
  have hne: "header \<noteq> []" using cl by auto
  have "c \<noteq> 0"
  proof
    assume "c = 0"
    then have "index_of ''control'' (map lower header) = Some 0" using c by simp
    then have "''control'' = lower (hd header)"
      using hne by (cases header) (auto split: if_splits option.splits)
    moreover have "lower (hd header) = ''otu''"
      using h0 hne by (cases header) (auto simp: getitem_def)
    ultimately show False by simp
  qed
  then have c_pos: "0 < c" by simp
  have zs: "zip_star csvrows = map (\<lambda>j. map (\<lambda>row. row ! j) csvrows) [0..<length header]"
    using zip_star_rect [OF ne rect] .
  have ccol: "ccol = map (\<lambda>row. row ! c) csvrows"
    using cc cl by (simp add: zs getitem_def)
  have col0: "col0 = map (\<lambda>row. row ! 0) csvrows"
    using c0 hne by (simp add: zs getitem_def)
  have lc: "length controls = length csvrows"
    and ci: "\<forall>i<length csvrows. int_of (csvrows ! i ! c) = Inr (controls ! i)"
    using collect_map_Inr [OF ctl] by (simp_all add: ccol)
  have ld: "length data = length csvrows"
    and di: "\<forall>i<length csvrows. data_row int_of c (csvrows ! i) = Inr (data ! i)"
    using collect_map_Inr [OF dat] by simp_all
  have ls: "length species = length csvrows" by (simp add: sp col0)
  show ?thesis using hd ne c c_pos cl ls lc ld ci di by blast
qed

subsection \<open>Resolving all labels\<close>

lemma resolve_row_length: "resolve env sp w = Some (Inr row, w1) \<Longrightarrow> length row = 7"
  by (auto simp: resolve_def length_species_row split: option.splits prod.splits sum.splits)

lemma get_taxonomy_rows:
  "get_taxonomy env species w = Some (Inr rows, w') \<Longrightarrow>
   length rows = length species \<and> (\<forall>r\<in>set rows. length r = 7)"
proof (induction species arbitrary: w rows)
  case Nil
  then show ?case by simp
next
  case (Cons sp species)
  from Cons.prems obtain row w1 rest where r: "resolve env sp w = Some (Inr row, w1)"
    and g: "get_taxonomy env species w1 = Some (Inr rest, w')" and rows: "rows = row # rest"
    by (auto split: option.splits prod.splits sum.splits)
  show ?case
    using Cons.IH [OF g] resolve_row_length [OF r] by (simp add: rows)
qed

subsection \<open>Writing\<close>

lemma combine_Inr:
  assumes "combine species data = Inr combined"
  shows "length combined = length species"
    and "i < length species \<Longrightarrow> i < length data \<and> combined ! i = species ! i @ map PyFloat (data ! i)"
proof -
  note c = collect_map_Inr [OF assms [unfolded combine_def]]
  show "length combined = length species" using c by simp
  show "i < length data \<and> combined ! i = species ! i @ map PyFloat (data ! i)"
    if "i < length species"
    using c that by (auto simp: getitem_def split: if_splits)
qed

lemma insert_row_set:
  "insert_row r xs = Inr ys \<Longrightarrow> set ys = insert r (set xs) \<and> length ys = Suc (length xs)"
proof (induction xs arbitrary: ys)
  case Nil
  then show ?case by auto
next
  case (Cons x xs)
  show ?case
  proof (cases "row_lt x r")
    case (Inl e)
    then show ?thesis using Cons.prems by simp
  next
    case (Inr b)
    show ?thesis
    proof (cases b)
      case True
      then obtain zs where zs: "insert_row r xs = Inr zs" and ys: "ys = x # zs"
        using Cons.prems Inr by (auto split: sum.splits)
      show ?thesis using Cons.IH [OF zs] by (auto simp: ys)
    next
      case False
      then show ?thesis using Cons.prems Inr by auto
    qed
  qed
qed

lemma sort_rows_set:
  "sort_rows rs = Inr out \<Longrightarrow> set out = set rs \<and> length out = length rs"
proof (induction rs arbitrary: out)
  case Nil
  then show ?case by simp
next
  case (Cons r rs)
  from Cons.prems obtain s where s: "sort_rows rs = Inr s" and i: "insert_row r s = Inr out"
    by (auto split: sum.splits)
  show ?case using Cons.IH [OF s] insert_row_set [OF i] by simp
qed

lemma write_data_Inr:
  assumes "write_data header species data = Inr rows"
  shows "\<exists>combined. combine species data = Inr combined \<and> set (tl rows) = set combined \<and>
           length (tl rows) = length species \<and>
           hd rows = map PyStr ([''domain'', ''kingdom'', ''phylum'', ''class'', ''order'', ''family'',
                                 ''genus, species''] @ butlast (tl header))"
proof -
  from assms obtain combined sorted_rows where c: "combine species data = Inr combined"
    and s: "sort_rows combined = Inr sorted_rows"
    and r: "rows = map PyStr ([''domain'', ''kingdom'', ''phylum'', ''class'', ''order'', ''family'',
                               ''genus, species''] @ butlast (tl header)) # sorted_rows"
    by (auto simp: write_data_def split: sum.splits)
  show ?thesis
    using c sort_rows_set [OF s] combine_Inr(1) [OF c] by (simp add: r)
qed

lemma main_Inr:
  assumes "main int_of env fs (prog # file # out # args) w = Some (Inr rows, w')"
  shows "\<exists>header species controls data species_processed data_processed.
           read_data int_of fs file = Inr (header, species, controls, data) \<and>
           process_data env species controls data w =
             Some (Inr (species_processed, data_processed), w') \<and>
           write_data header species_processed data_processed = Inr rows"
  using assms
  by (auto simp: main_def getitem_def split: sum.splits option.splits prod.splits)

lemma process_data_Inr:
  assumes "process_data env species controls data w =
     Some (Inr (species_processed, data_processed), w')"
  shows "prune_and_normalize PRUNING_VALUE controls data = Inr data_processed"
    and "get_taxonomy env species w = Some (Inr species_processed, w')"
  using assms by (auto simp: process_data_def split: sum.splits option.splits prod.splits)

subsection \<open>The rows of the output\<close>

lemma normalized_cells:
  assumes rect: "\<forall>r\<in>set data. length r = m"
    and ctl: "length data = length controls"
    and ne: "data \<noteq> []"
    and pn: "prune_and_normalize pv controls data = Inr out"
  shows "\<exists>pruned. prune_counts pv controls data = Inr pruned \<and> length out = length data \<and>
     (\<forall>i<length data. length (out ! i) = m \<and>
        (\<forall>k<m. prune_cell pv (controls ! i) (data ! i ! k) = Inr (pruned ! i ! k) \<and>
           out ! i ! k = of_int (pruned ! i ! k) / of_int (sum_list (map (\<lambda>r. r ! k) pruned))))"
proof -
  have le: "length data \<le> length controls" using ctl by simp
  obtain pruned where pr: "prune_counts pv controls data = Inr pruned"
    using pn by (auto simp: prune_and_normalize_def split: sum.splits)
  have len: "length pruned = length data"
    using prune_counts_shape(1) [OF pr] .
  have out: "out = map (\<lambda>r. map (\<lambda>k. of_int (r ! k) / of_int (sum_list (map (\<lambda>r. r ! k) pruned)))
                          [0..<m]) pruned"
    using prune_and_normalize_rect [OF rect le pr ne] pn by (simp split: if_splits)
  have "length (out ! i) = m \<and>
        (\<forall>k<m. prune_cell pv (controls ! i) (data ! i ! k) = Inr (pruned ! i ! k) \<and>
           out ! i ! k = of_int (pruned ! i ! k) / of_int (sum_list (map (\<lambda>r. r ! k) pruned)))"
    if i: "i < length data" for i
  proof -
    have "length (data ! i) = m" using rect i by simp
    then have "prune_cell pv (controls ! i) (data ! i ! k) = Inr (pruned ! i ! k)" if "k < m" for k
      using prune_counts_shape(3) [OF pr i] that by simp
    then show ?thesis using i len by (simp add: out)
  qed
  then show ?thesis using pr len by (auto simp: out)
qed

text \<open>
  C6. For an input whose rows have the length of the header: every data row written is, for
  some input row \<open>i\<close>, the seven fields of the resolved label followed by one proportion
  for each header column other than the first and the control column, in the order of
  the header, wherever the control column stands: the \<open>k\<close>-th proportion is the pruned
  count of the \<open>k\<close>-th such column divided by the sum of the pruned counts of that
  column. There are as many data rows as input rows.
\<close>

theorem output_rows_sample_columns:
  assumes run: "main int_of env fs (prog # file # out # args) w = Some (Inr rows, w')"
    and input: "fs file = Some (header # csvrows)"
    and rect: "\<forall>row\<in>set csvrows. length row = length header"
  shows "\<exists>c species controls data pruned species_processed data_processed.
     index_of ''control'' (map lower header) = Some c \<and> 0 < c \<and> c < length header \<and>
     read_data int_of fs file = Inr (header, species, controls, data) \<and>
     prune_counts PRUNING_VALUE controls data = Inr pruned \<and>
     process_data env species controls data w = Some (Inr (species_processed, data_processed), w') \<and>
     length (filter (\<lambda>k. k \<noteq> c) [1..<length header]) = length header - 2 \<and>
     length (tl rows) = length csvrows \<and>
     (\<forall>row\<in>set (tl rows). \<exists>i<length csvrows.
        row = species_processed ! i @ map PyFloat (data_processed ! i) \<and>
        length (species_processed ! i) = 7 \<and>
        length (data_processed ! i) = length header - 2 \<and>
        int_of (csvrows ! i ! c) = Inr (controls ! i) \<and>
        (\<forall>k<length header - 2.
           int_of (csvrows ! i ! (filter (\<lambda>k. k \<noteq> c) [1..<length header] ! k)) = Inr (data ! i ! k) \<and>
           prune_cell PRUNING_VALUE (controls ! i) (data ! i ! k) = Inr (pruned ! i ! k) \<and>
           data_processed ! i ! k =
             of_int (pruned ! i ! k) / of_int (sum_list (map (\<lambda>r. r ! k) pruned))))"
proof -
  obtain header' species controls data species_processed data_processed where
    read: "read_data int_of fs file = Inr (header', species, controls, data)"
    and proc: "process_data env species controls data w =
      Some (Inr (species_processed, data_processed), w')"
    and wr: "write_data header' species_processed data_processed = Inr rows"
    using main_Inr [OF run] by blast
  obtain c where hd: "header' = header" and ne: "csvrows \<noteq> []"
    and c: "index_of ''control'' (map lower header) = Some c" "0 < c" "c < length header"
    and ls: "length species = length csvrows"
    and lc: "length controls = length csvrows" and ld: "length data = length csvrows"
    and cells: "\<forall>i<length csvrows. int_of (csvrows ! i ! c) = Inr (controls ! i) \<and>
           data_row int_of c (csvrows ! i) = Inr (data ! i)"
    using read_data_Inr [OF read input rect] by blast
  define m where "m = length header - 2"
  define cols where "cols = filter (\<lambda>k. k \<noteq> c) [1..<length header]"
  have lcols: "length cols = m"
    unfolding cols_def m_def using c(2,3) by (rule length_filter_neq_upt)
  have drow: "length (data ! i) = m \<and>
      (\<forall>k<m. int_of (csvrows ! i ! (cols ! k)) = Inr (data ! i ! k))"
    if i: "i < length csvrows" for i
  proof -
    have row: "length (csvrows ! i) = length header" using rect i by simp
    have d: "data_row int_of c (csvrows ! i) = Inr (data ! i)" using cells i by simp
    show ?thesis
      using data_row_Inr [OF d] lcols by (simp add: row cols_def)
  qed
  have drect: "\<forall>r\<in>set data. length r = m"
  proof
    fix r assume "r \<in> set data"
    then obtain i where "i < length data" "r = data ! i" by (auto simp: in_set_conv_nth)
    then show "length r = m" using drow ld by simp
  qed
  have dne: "data \<noteq> []" using ne ld by auto
  have pn: "prune_and_normalize PRUNING_VALUE controls data = Inr data_processed"
    and gt: "get_taxonomy env species w = Some (Inr species_processed, w')"
    using process_data_Inr [OF proc] by simp_all
  obtain pruned where pr: "prune_counts PRUNING_VALUE controls data = Inr pruned"
    and lout: "length data_processed = length data"
    and ncells: "\<forall>i<length data. length (data_processed ! i) = m \<and>
        (\<forall>k<m. prune_cell PRUNING_VALUE (controls ! i) (data ! i ! k) = Inr (pruned ! i ! k) \<and>
           data_processed ! i ! k =
             of_int (pruned ! i ! k) / of_int (sum_list (map (\<lambda>r. r ! k) pruned)))"
    using normalized_cells [OF drect _ dne pn] lc ld by auto
  have lsp: "length species_processed = length csvrows"
    and seven: "\<forall>r\<in>set species_processed. length r = 7"
    using get_taxonomy_rows [OF gt] ls by simp_all
  obtain combined where comb: "combine species_processed data_processed = Inr combined"
    and rows: "set (tl rows) = set combined" and lrows: "length (tl rows) = length species_processed"
    using write_data_Inr [OF wr] by blast
  have each: "\<exists>i<length csvrows.
        row = species_processed ! i @ map PyFloat (data_processed ! i) \<and>
        length (species_processed ! i) = 7 \<and>
        length (data_processed ! i) = m \<and>
        int_of (csvrows ! i ! c) = Inr (controls ! i) \<and>
        (\<forall>k<m.
           int_of (csvrows ! i ! (cols ! k)) = Inr (data ! i ! k) \<and>
           prune_cell PRUNING_VALUE (controls ! i) (data ! i ! k) = Inr (pruned ! i ! k) \<and>
           data_processed ! i ! k =
             of_int (pruned ! i ! k) / of_int (sum_list (map (\<lambda>r. r ! k) pruned)))"
    if "row \<in> set (tl rows)" for row
  proof -
    from that rows obtain i where i: "i < length combined" "row = combined ! i"
      by (auto simp: in_set_conv_nth)
    have il: "i < length species_processed" using i(1) combine_Inr(1) [OF comb] by simp
    then have ic: "i < length csvrows" using lsp by simp
    have "row = species_processed ! i @ map PyFloat (data_processed ! i)"
      using combine_Inr(2) [OF comb il] i(2) by simp
    moreover have "length (species_processed ! i) = 7" using seven il by simp
    ultimately show ?thesis
      using ic drow [OF ic] ncells cells ld by auto
  qed
  have lr: "length (tl rows) = length csvrows" using lrows lsp by simp
  have all: "\<forall>row\<in>set (tl rows). \<exists>i<length csvrows.
        row = species_processed ! i @ map PyFloat (data_processed ! i) \<and>
        length (species_processed ! i) = 7 \<and>
        length (data_processed ! i) = m \<and>
        int_of (csvrows ! i ! c) = Inr (controls ! i) \<and>
        (\<forall>k<m.
           int_of (csvrows ! i ! (cols ! k)) = Inr (data ! i ! k) \<and>
           prune_cell PRUNING_VALUE (controls ! i) (data ! i ! k) = Inr (pruned ! i ! k) \<and>
           data_processed ! i ! k =
             of_int (pruned ! i ! k) / of_int (sum_list (map (\<lambda>r. r ! k) pruned)))"
    using each by (intro ballI)
  have rd: "read_data int_of fs file = Inr (header, species, controls, data)"
    using read hd by simp
  show ?thesis
    apply (rule exI [where x = c])
    apply (rule exI [where x = species])
    apply (rule exI [where x = controls])
    apply (rule exI [where x = data])
    apply (rule exI [where x = pruned])
    apply (rule exI [where x = species_processed])
    apply (rule exI [where x = data_processed])
    apply (intro conjI)
            apply (rule c(1))
           apply (rule c(2))
          apply (rule c(3))
         apply (rule rd)
        apply (rule pr)
       apply (rule proc)
      apply (rule lcols [unfolded cols_def m_def])
     apply (rule lr)
    apply (rule all [unfolded cols_def m_def])
    done
qed

theorem output_rows_sample_columns_witness:
  "main int_of_decimal example_env example_files example_argv start =
     Some (Inr [[PyStr ''domain'', PyStr ''kingdom'', PyStr ''phylum'', PyStr ''class'',
                 PyStr ''order'', PyStr ''family'', PyStr ''genus, species'', PyStr ''siteA'',
                 PyStr ''Control''],
                [PyStr ''-'', PyStr ''-'', PyStr ''-'', PyStr ''-'', PyStr ''-'', PyStr ''-'',
                 PyStr ''zzz'', PyFloat 0, PyFloat (3 / 5)],
                [PyStr ''Bacteria'', PyStr ''-'', PyStr ''-'', PyStr ''-'', PyStr ''Bacillales'',
                 PyStr ''Bacillaceae'', PyStr ''Bacillus'', PyFloat 1, PyFloat (2 / 5)]],
           \<lparr>calls = 3, stderr = [], warned = [], slept = []\<rparr>) \<and>
   (\<exists>c. index_of ''control'' (map lower [''OTU'', ''siteA'', ''Control'', ''siteB'']) = Some c \<and>
        0 < c \<and> c < 4)"
proof -
  have run: "main int_of_decimal example_env example_files
      (''process-otu-data.py'' # ''in.csv'' # ''out.csv'' # []) start =
     Some (Inr [[PyStr ''domain'', PyStr ''kingdom'', PyStr ''phylum'', PyStr ''class'',
                 PyStr ''order'', PyStr ''family'', PyStr ''genus, species'', PyStr ''siteA'',
                 PyStr ''Control''],
                [PyStr ''-'', PyStr ''-'', PyStr ''-'', PyStr ''-'', PyStr ''-'', PyStr ''-'',
                 PyStr ''zzz'', PyFloat 0, PyFloat (3 / 5)],
                [PyStr ''Bacteria'', PyStr ''-'', PyStr ''-'', PyStr ''-'', PyStr ''Bacillales'',
                 PyStr ''Bacillaceae'', PyStr ''Bacillus'', PyFloat 1, PyFloat (2 / 5)]],
           \<lparr>calls = 3, stderr = [], warned = [], slept = []\<rparr>)"
    by code_simp
  have input: "example_files ''in.csv'' =
      Some ([''OTU'', ''siteA'', ''Control'', ''siteB''] #
            [[''Bacillus'', ''20'', ''10'', ''40''], [''Zzz'', ''5'', ''10'', ''60'']])"
    by (simp add: example_files_def)
  have rect: "\<forall>row\<in>set [[''Bacillus'', ''20'', ''10'', ''40''], [''Zzz'', ''5'', ''10'', ''60'']].
      length row = length [''OTU'', ''siteA'', ''Control'', ''siteB'']"
    by simp
  obtain c where "index_of ''control'' (map lower [''OTU'', ''siteA'', ''Control'', ''siteB'']) = Some c"
    and "0 < c" and "c < length [''OTU'', ''siteA'', ''Control'', ''siteB'']"
    using output_rows_sample_columns [OF run input rect] by blast
  then have "\<exists>c. index_of ''control'' (map lower [''OTU'', ''siteA'', ''Control'', ''siteB'']) = Some c \<and>
        0 < c \<and> c < 4"
    by auto
  then show ?thesis using run unfolding example_argv_def by blast
qed

end
